theory Spec2Isabelle
  imports Complex_Main "HOL-Library.Log_Nat" "HOL-Library.Monad_Syntax"
begin

section \<open>JavaScript numbers\<close>

text \<open>
  Every value the pipeline of \<^verbatim>\<open>src/utils/imageProcessing.ts\<close> computes with is a
  JavaScript \<^verbatim>\<open>number\<close>: an IEEE 754 binary64 value. A \<open>number\<close> is a finite rational,
  one of the two infinities or NaN. Negative zero is identified with zero: its sign shows
  only in a division by it, and a zero divisor is taken as positive.
  \<^verbatim>\<open>undefined\<close>, the result of reading a typed array out of range, is only ever used as an
  operand of arithmetic in this code, where it converts to NaN; such reads return \<open>NaN\<close>.
\<close>

datatype number = Fin rat | PInf | NInf | NaN

text \<open>
  Rounding to nearest, ties to even, to a binary format of precision \<open>p\<close> and exponent range
  \<open>emin .. emax\<close>: the result is the multiple of the quantum \<open>2 ^ (e - p + 1)\<close> nearest to
  \<open>q\<close>, where \<open>e\<close> is the exponent \<open>ilog2 \<bar>q\<bar>\<close> of \<open>q\<close> (at least \<open>emin\<close>, which gives the
  subnormal numbers their fixed quantum); a result of magnitude \<open>2 ^ (emax + 1)\<close> or more
  overflows to an infinity.
\<close>

definition pow2 :: "int \<Rightarrow> rat" where
  "pow2 e = (if 0 \<le> e then 2 ^ nat e else 1 / 2 ^ nat (- e))"

definition round_half_even :: "rat \<Rightarrow> int" where
  "round_half_even q =
     (let f = \<lfloor>q\<rfloor>; d = q - of_int f
      in if d < 1 / 2 then f else if 1 / 2 < d then f + 1 else if even f then f else f + 1)"

definition ilog2 :: "rat \<Rightarrow> int" where
  "ilog2 q = (case quotient_of q of (a, b) \<Rightarrow>
     (let d = bitlen a - bitlen b in if pow2 d \<le> q then d else d - 1))"

definition quantum :: "nat \<Rightarrow> int \<Rightarrow> rat \<Rightarrow> rat" where
  "quantum p emin q = pow2 (max (ilog2 \<bar>q\<bar>) emin - int p + 1)"

definition round_val :: "nat \<Rightarrow> int \<Rightarrow> rat \<Rightarrow> rat" where
  "round_val p emin q =
     of_int (round_half_even (q / quantum p emin q)) * quantum p emin q"

definition round_to :: "nat \<Rightarrow> int \<Rightarrow> int \<Rightarrow> rat \<Rightarrow> number" where
  "round_to p emin emax q =
     (if q = 0 then Fin 0
      else let v = round_val p emin q
           in if pow2 (emax + 1) \<le> \<bar>v\<bar> then (if 0 < q then PInf else NInf) else Fin v)"

definition rnd64 :: "rat \<Rightarrow> number" where
  "rnd64 = round_to 53 (- 1022) 1023"

definition rnd32 :: "rat \<Rightarrow> number" where
  "rnd32 = round_to 24 (- 126) 127"

text \<open>
  The arithmetic is parametrised by its two roundings: \<open>dbl\<close> rounds the exact result of an
  operation on numbers, \<open>sgl\<close> rounds a value stored into a \<^verbatim>\<open>Float32Array\<close>. The program runs
  with \<open>ieee\<close>; \<open>exact\<close> is the arithmetic without rounding, used to state what the
  algorithms compute up to rounding.
\<close>

record rounding =
  dbl :: "rat \<Rightarrow> number"
  sgl :: "rat \<Rightarrow> number"

definition ieee :: rounding where
  "ieee = \<lparr> dbl = rnd64, sgl = rnd32 \<rparr>"

definition exact :: rounding where
  "exact = \<lparr> dbl = Fin, sgl = Fin \<rparr>"

fun nadd :: "rounding \<Rightarrow> number \<Rightarrow> number \<Rightarrow> number" where
  "nadd R (Fin a) (Fin b) = dbl R (a + b)"
| "nadd R NaN _ = NaN"
| "nadd R _ NaN = NaN"
| "nadd R PInf NInf = NaN"
| "nadd R NInf PInf = NaN"
| "nadd R PInf _ = PInf"
| "nadd R _ PInf = PInf"
| "nadd R NInf _ = NInf"
| "nadd R _ NInf = NInf"

fun nsub :: "rounding \<Rightarrow> number \<Rightarrow> number \<Rightarrow> number" where
  "nsub R (Fin a) (Fin b) = dbl R (a - b)"
| "nsub R NaN _ = NaN"
| "nsub R _ NaN = NaN"
| "nsub R PInf PInf = NaN"
| "nsub R NInf NInf = NaN"
| "nsub R PInf _ = PInf"
| "nsub R _ PInf = NInf"
| "nsub R NInf _ = NInf"
| "nsub R _ NInf = PInf"

fun inf_sign :: "bool \<Rightarrow> number" where
  "inf_sign True = PInf"
| "inf_sign False = NInf"

fun nmul :: "rounding \<Rightarrow> number \<Rightarrow> number \<Rightarrow> number" where
  "nmul R (Fin a) (Fin b) = dbl R (a * b)"
| "nmul R NaN _ = NaN"
| "nmul R _ NaN = NaN"
| "nmul R PInf (Fin b) = (if b = 0 then NaN else inf_sign (0 < b))"
| "nmul R NInf (Fin b) = (if b = 0 then NaN else inf_sign (b < 0))"
| "nmul R (Fin a) PInf = (if a = 0 then NaN else inf_sign (0 < a))"
| "nmul R (Fin a) NInf = (if a = 0 then NaN else inf_sign (a < 0))"
| "nmul R PInf PInf = PInf"
| "nmul R NInf NInf = PInf"
| "nmul R PInf NInf = NInf"
| "nmul R NInf PInf = NInf"

fun ndiv :: "rounding \<Rightarrow> number \<Rightarrow> number \<Rightarrow> number" where
  "ndiv R (Fin a) (Fin b) =
     (if b = 0 then (if a = 0 then NaN else inf_sign (0 < a)) else dbl R (a / b))"
| "ndiv R NaN _ = NaN"
| "ndiv R _ NaN = NaN"
| "ndiv R (Fin a) PInf = Fin 0"
| "ndiv R (Fin a) NInf = Fin 0"
| "ndiv R PInf (Fin b) = inf_sign (0 \<le> b)"
| "ndiv R NInf (Fin b) = inf_sign (b < 0)"
| "ndiv R PInf PInf = NaN"
| "ndiv R PInf NInf = NaN"
| "ndiv R NInf PInf = NaN"
| "ndiv R NInf NInf = NaN"

text \<open>\<^verbatim>\<open>Math.floor\<close>: the floor of a double is a double, so no rounding is involved.\<close>

fun nfloor :: "number \<Rightarrow> number" where
  "nfloor (Fin a) = Fin (of_int \<lfloor>a\<rfloor>)"
| "nfloor x = x"

text \<open>The comparisons \<^verbatim>\<open>>\<close> and \<^verbatim>\<open><=\<close>: false as soon as one side is NaN.\<close>

fun ngt :: "number \<Rightarrow> number \<Rightarrow> bool" where
  "ngt NaN _ = False"
| "ngt _ NaN = False"
| "ngt (Fin a) (Fin b) = (b < a)"
| "ngt PInf PInf = False"
| "ngt PInf _ = True"
| "ngt _ PInf = False"
| "ngt NInf _ = False"
| "ngt _ NInf = True"

fun nle :: "number \<Rightarrow> number \<Rightarrow> bool" where
  "nle NaN _ = False"
| "nle _ NaN = False"
| "nle a b = (\<not> ngt a b)"

text \<open>\<^verbatim>\<open>Math.max\<close> and \<^verbatim>\<open>Math.min\<close>: NaN as soon as one argument is NaN.\<close>

fun nmax :: "number \<Rightarrow> number \<Rightarrow> number" where
  "nmax NaN _ = NaN"
| "nmax _ NaN = NaN"
| "nmax a b = (if ngt a b then a else b)"

fun nmin :: "number \<Rightarrow> number \<Rightarrow> number" where
  "nmin NaN _ = NaN"
| "nmin _ NaN = NaN"
| "nmin a b = (if ngt a b then b else a)"

definition num :: "int \<Rightarrow> number" where
  "num n = Fin (of_int n)"

section \<open>Typed arrays\<close>

text \<open>
  A \<^verbatim>\<open>Uint8ClampedArray\<close> is a list of integers in \<open>0 .. 255\<close>, a \<^verbatim>\<open>Float32Array\<close> a list
  of numbers. A read out of range gives \<^verbatim>\<open>undefined\<close>: \<open>None\<close> where the code compares
  the value, \<open>NaN\<close> where it computes with it. A write out of range is ignored, as
  \<open>xs[i := v]\<close> does. A write converts the value to the element type: \<open>fround\<close> rounds to
  binary32, \<open>toUint8Clamp\<close> maps NaN to 0, clamps to \<open>0 .. 255\<close> and rounds ties to even.
\<close>

definition u8_read :: "int list \<Rightarrow> nat \<Rightarrow> int option" where
  "u8_read a i = (if i < length a then Some (a ! i) else None)"

definition to_number :: "int option \<Rightarrow> number" where
  "to_number v = (case v of None \<Rightarrow> NaN | Some b \<Rightarrow> num b)"

definition u8_get :: "int list \<Rightarrow> nat \<Rightarrow> number" where
  "u8_get a i = to_number (u8_read a i)"

definition f32_at :: "number list \<Rightarrow> nat \<Rightarrow> number" where
  "f32_at a i = (if i < length a then a ! i else NaN)"

definition f32_get :: "number list \<Rightarrow> number \<Rightarrow> number" where
  "f32_get a i =
     (case i of
        Fin q \<Rightarrow> if q = of_int \<lfloor>q\<rfloor> \<and> 0 \<le> q then f32_at a (nat \<lfloor>q\<rfloor>) else NaN
      | _ \<Rightarrow> NaN)"

definition fround :: "rounding \<Rightarrow> number \<Rightarrow> number" where
  "fround R v = (case v of Fin q \<Rightarrow> sgl R q | _ \<Rightarrow> v)"

definition toUint8Clamp :: "number \<Rightarrow> int" where
  "toUint8Clamp v =
     (case v of
        NaN \<Rightarrow> 0
      | PInf \<Rightarrow> 255
      | NInf \<Rightarrow> 0
      | Fin q \<Rightarrow> if q \<le> 0 then 0 else if 255 \<le> q then 255 else round_half_even q)"

section \<open>The integral image\<close>

text \<open>
  \<^verbatim>\<open>computeIntegralImage(data, width, height)\<close>: the inner loop over \<open>x\<close> carries the
  running \<^verbatim>\<open>rowSum\<close> and the table, the outer loop over \<open>y\<close> the table. The counters
  are integers below \<open>width\<close> and \<open>height\<close>, the dimensions of an \<^verbatim>\<open>ImageData\<close>, and
  are natural numbers here. The literals \<^verbatim>\<open>0.299\<close>, \<^verbatim>\<open>0.587\<close> and \<^verbatim>\<open>0.114\<close> denote the
  doubles nearest to them.
\<close>

definition luminance :: "rounding \<Rightarrow> int list \<Rightarrow> nat \<Rightarrow> number" where
  "luminance R data idx =
     nadd R (nadd R (nmul R (dbl R (299 / 1000)) (u8_get data idx))
                    (nmul R (dbl R (587 / 1000)) (u8_get data (idx + 1))))
            (nmul R (dbl R (114 / 1000)) (u8_get data (idx + 2)))"

function integralRow ::
  "rounding \<Rightarrow> int list \<Rightarrow> nat \<Rightarrow> nat \<Rightarrow> nat \<Rightarrow> number \<Rightarrow> number list \<Rightarrow> number list" where
  "integralRow R data width y x rowSum integral =
     (if x < width then
        let idx = (y * width + x) * 4;
            lum = luminance R data idx;
            rowSum' = nadd R rowSum lum;
            v = (if y = 0 then rowSum'
                 else nadd R rowSum' (f32_at integral ((y - 1) * width + x)))
        in integralRow R data width y (x + 1) rowSum' (integral[y * width + x := fround R v])
      else integral)"
  by pat_completeness auto
termination
  by (relation "measure (\<lambda>(R, data, width, y, x, rowSum, integral). width - x)") auto

function integralRows ::
  "rounding \<Rightarrow> int list \<Rightarrow> nat \<Rightarrow> nat \<Rightarrow> nat \<Rightarrow> number list \<Rightarrow> number list" where
  "integralRows R data width height y integral =
     (if y < height then
        integralRows R data width height (y + 1) (integralRow R data width y 0 (Fin 0) integral)
      else integral)"
  by pat_completeness auto
termination
  by (relation "measure (\<lambda>(R, data, width, height, y, integral). height - y)") auto

definition computeIntegralImage ::
  "rounding \<Rightarrow> int list \<Rightarrow> nat \<Rightarrow> nat \<Rightarrow> number list" where
  "computeIntegralImage R data width height =
     integralRows R data width height 0 (replicate (width * height) (Fin 0))"

text \<open>
  \<^verbatim>\<open>getRectSum(integral, width, x, y, w, h)\<close>: all arguments are numbers (the caller passes
  its loop counters and the crop size), so the four indices are computed in the
  arithmetic of numbers.
\<close>

definition getRectSum ::
  "rounding \<Rightarrow> number list \<Rightarrow> number \<Rightarrow> number \<Rightarrow> number \<Rightarrow> number \<Rightarrow> number \<Rightarrow> number" where
  "getRectSum R integral width x y w h =
     (let x2 = nsub R (nadd R x w) (Fin 1);
          y2 = nsub R (nadd R y h) (Fin 1);
          A = (if ngt x (Fin 0) \<and> ngt y (Fin 0)
               then f32_get integral (nadd R (nmul R (nsub R y (Fin 1)) width) (nsub R x (Fin 1)))
               else Fin 0);
          B = (if ngt y (Fin 0)
               then f32_get integral (nadd R (nmul R (nsub R y (Fin 1)) width) x2)
               else Fin 0);
          C = (if ngt x (Fin 0)
               then f32_get integral (nadd R (nmul R y2 width) (nsub R x (Fin 1)))
               else Fin 0);
          D = f32_get integral (nadd R (nmul R y2 width) x2)
      in nadd R (nsub R (nsub R D B) C) A)"

section \<open>The region of interest\<close>

text \<open>
  An \<^verbatim>\<open>ImageData\<close> has a pixel array and the dimensions it declares; the fields of the
  returned rectangle \<^verbatim>\<open>{x, y, w, h}\<close> are numbers, and so are the parameters
  \<^verbatim>\<open>targetAspectRatio\<close> and \<^verbatim>\<open>clipBottom\<close>.
\<close>

record ImageData =
  img_data :: "int list"
  img_width :: nat
  img_height :: nat

record rect =
  rect_x :: number
  rect_y :: number
  rect_w :: number
  rect_h :: number

record scan =
  maxBrightness :: number
  bestX :: number
  bestY :: number

text \<open>
  The two scanning loops of \<^verbatim>\<open>findCoBrightestROI\<close>. Their counters are numbers, advanced
  by \<^verbatim>\<open>x += stride\<close> in the arithmetic of numbers, and compared with bounds that are
  computed numbers: a loop that does not end is the value \<open>None\<close>.
\<close>

definition stride :: number where
  "stride = Fin 4"

definition visit ::
  "rounding \<Rightarrow> number list \<Rightarrow> number list \<Rightarrow> number \<Rightarrow> number \<Rightarrow> number \<Rightarrow> number \<Rightarrow> number \<Rightarrow>
     scan \<Rightarrow> scan" where
  "visit R integral1 integral2 w cropW cropH y x s =
     (let sum1 = getRectSum R integral1 w x y cropW cropH;
          sum2 = getRectSum R integral2 w x y cropW cropH;
          total = nadd R sum1 sum2
      in if ngt total (maxBrightness s)
         then \<lparr> maxBrightness = total, bestX = x, bestY = y \<rparr>
         else s)"

partial_function (option) scanX ::
  "rounding \<Rightarrow> number list \<Rightarrow> number list \<Rightarrow> number \<Rightarrow> number \<Rightarrow> number \<Rightarrow> number \<Rightarrow> number \<Rightarrow>
     scan \<Rightarrow> scan option" where
  "scanX R integral1 integral2 w cropW cropH y x s =
     (if nle x (nsub R w cropW)
      then scanX R integral1 integral2 w cropW cropH y (nadd R x stride)
             (visit R integral1 integral2 w cropW cropH y x s)
      else Some s)"

partial_function (option) scanY ::
  "rounding \<Rightarrow> number list \<Rightarrow> number list \<Rightarrow> number \<Rightarrow> number \<Rightarrow> number \<Rightarrow> number \<Rightarrow> number \<Rightarrow>
     scan \<Rightarrow> scan option" where
  "scanY R integral1 integral2 w h cropW cropH y s =
     (if nle y (nsub R h cropH)
      then scanX R integral1 integral2 w cropW cropH y (Fin 0) s
             \<bind> (\<lambda>s. scanY R integral1 integral2 w h cropW cropH (nadd R y stride) s)
      else Some s)"

declare scanX.simps [code]
declare scanY.simps [code]

definition findCoBrightestROI ::
  "rounding \<Rightarrow> ImageData \<Rightarrow> ImageData \<Rightarrow> number \<Rightarrow> number \<Rightarrow> rect option" where
  "findCoBrightestROI R img1 img2 targetAspectRatio clipBottom =
     (let w = num (int (img_width img1));
          h = nmax (Fin 1) (nsub R (num (int (img_height img1))) clipBottom);
          cropW = w;
          cropH = nfloor (ndiv R w targetAspectRatio);
          (cropW, cropH) =
             (if ngt cropH h then (nfloor (nmul R h targetAspectRatio), h) else (cropW, cropH));
          integral1 = computeIntegralImage R (img_data img1) (img_width img1) (img_height img1);
          integral2 = computeIntegralImage R (img_data img2) (img_width img1) (img_height img1)
      in scanY R integral1 integral2 w h cropW cropH (Fin 0)
           \<lparr> maxBrightness = Fin (- 1), bestX = Fin 0, bestY = Fin 0 \<rparr>
         \<bind> (\<lambda>s. Some \<lparr> rect_x = bestX s, rect_y = bestY s, rect_w = cropW, rect_h = cropH \<rparr>))"

section \<open>The row pipeline\<close>

text \<open>
  The interface \<^verbatim>\<open>ProcessingConfig\<close> that \<^verbatim>\<open>imageProcessing.ts\<close> imports from
  \<^verbatim>\<open>../types\<close> (lines 64 to 76 of \<^verbatim>\<open>src/index.tsx\<close>), field by field: the sizes, the
  target intensity, the padding, the jitter, the clipped height and the font sizes are
  all of type \<^verbatim>\<open>number\<close>, the three column labels are a tuple of strings.
\<close>

record ProcessingConfig =
  targetWidth :: number
  targetHeight :: number
  targetIntensity :: number
  padding :: number
  randomness :: number
  clipBottom :: number
  columnLabels :: "string \<times> string \<times> string"
  rowLabelFontSize :: number
  columnLabelFontSize :: number
  fontFamily :: string
  showLabels :: bool

text \<open>
  The brightness adjustment of \<^verbatim>\<open>processChannel\<close>, on the pixel array \<^verbatim>\<open>data\<close> that
  \<^verbatim>\<open>getImageData\<close> returns for the resized crop. \<open>random\<close> is the value \<^verbatim>\<open>Math.random()\<close>
  returns for this channel; the variable \<^verbatim>\<open>max\<close> of the code is \<open>mx\<close>.
\<close>

definition max3 :: "number \<Rightarrow> number \<Rightarrow> number \<Rightarrow> number" where
  "max3 a b c = nmax (nmax a b) c"

function maxIntensity :: "int list \<Rightarrow> nat \<Rightarrow> number \<Rightarrow> number" where
  "maxIntensity data i mx =
     (if i < length data then
        let val = max3 (u8_get data i) (u8_get data (i + 1)) (u8_get data (i + 2))
        in maxIntensity data (i + 4) (if ngt val mx then val else mx)
      else mx)"
  by pat_completeness auto
termination
  by (relation "measure (\<lambda>(data, i, mx). length data - i)") auto

function applyScale :: "rounding \<Rightarrow> number \<Rightarrow> nat \<Rightarrow> int list \<Rightarrow> int list" where
  "applyScale R scale i data =
     (if i < length data then
        let r = nmul R (u8_get data i) scale;
            g = nmul R (u8_get data (i + 1)) scale;
            b = nmul R (u8_get data (i + 2)) scale;
            r = nmin (Fin 255) r;
            g = nmin (Fin 255) g;
            b = nmin (Fin 255) b
        in applyScale R scale (i + 4)
             (data[i := toUint8Clamp r, i + 1 := toUint8Clamp g, i + 2 := toUint8Clamp b])
      else data)"
  by pat_completeness auto
termination
  by (relation "measure (\<lambda>(R, scale, i, data). length data - i)") auto

definition brightnessTarget :: "rounding \<Rightarrow> ProcessingConfig \<Rightarrow> number \<Rightarrow> number" where
  "brightnessTarget R config random =
     (let randomShift = nsub R (nmul R random (randomness config))
                               (ndiv R (randomness config) (Fin 2));
          stochastic = nadd R (Fin 1) randomShift;
          target = nmul R (targetIntensity config) stochastic
      in target)"

definition brightnessScale :: "rounding \<Rightarrow> ProcessingConfig \<Rightarrow> number \<Rightarrow> int list \<Rightarrow> number" where
  "brightnessScale R config random data =
     (let mx = maxIntensity data 0 (Fin 1);
          target = brightnessTarget R config random;
          scale = ndiv R target mx
      in scale)"

definition adjustBrightness :: "rounding \<Rightarrow> ProcessingConfig \<Rightarrow> number \<Rightarrow> int list \<Rightarrow> int list" where
  "adjustBrightness R config random data =
     applyScale R (brightnessScale R config random data) 0 data"

text \<open>
  The code has no \<^verbatim>\<open>throw\<close> of its own. What it can be stopped by is an exception of
  the canvas: \<^verbatim>\<open>getImageData\<close> and \<^verbatim>\<open>createImageData\<close> take their sizes as
  \<^verbatim>\<open>[EnforceRange] long\<close>, so a size that is not finite, or that is outside the range of
  a \<^verbatim>\<open>long\<close> once truncated, is a \<^verbatim>\<open>TypeError\<close>, and a size of zero is an
  \<^verbatim>\<open>IndexSizeError\<close>. The memory of the browser is not modelled: an allocation does
  not fail. The three other errors are the ones the specification names; no line of the
  code raises them.
\<close>

datatype error = DecodeError | DimensionMismatchError | DegenerateGeometryError
  | TypeError | IndexSizeError

definition truncate_number :: "rat \<Rightarrow> int" where
  "truncate_number q = (if 0 \<le> q then \<lfloor>q\<rfloor> else - \<lfloor>- q\<rfloor>)"

definition toLong :: "number \<Rightarrow> error + int" where
  "toLong v =
     (case v of
        Fin q \<Rightarrow>
          (let n = truncate_number q
           in if - (2 ^ 31) \<le> n \<and> n \<le> 2 ^ 31 - 1 then Inr n else Inl TypeError)
      | _ \<Rightarrow> Inl TypeError)"

definition imageDataSize :: "number \<Rightarrow> number \<Rightarrow> error + nat" where
  "imageDataSize sw sh =
     (case toLong sw of
        Inl e \<Rightarrow> Inl e
      | Inr w \<Rightarrow>
          (case toLong sh of
             Inl e \<Rightarrow> Inl e
           | Inr h \<Rightarrow> if w = 0 \<or> h = 0 then Inl IndexSizeError else Inr (nat \<bar>w\<bar> * nat \<bar>h\<bar>)))"

text \<open>
  The attributes \<^verbatim>\<open>width\<close> and \<^verbatim>\<open>height\<close> of a canvas are \<^verbatim>\<open>unsigned long\<close>: the number
  assigned is truncated and taken modulo \<open>2 ^ 32\<close>, and a value above \<open>2 ^ 31 - 1\<close> is
  replaced by the default of the attribute (300 for the width, 150 for the height).
\<close>

definition toUint32 :: "number \<Rightarrow> int" where
  "toUint32 v = (case v of Fin q \<Rightarrow> truncate_number q mod 2 ^ 32 | _ \<Rightarrow> 0)"

definition canvasSize :: "int \<Rightarrow> number \<Rightarrow> int" where
  "canvasSize dflt v = (let u = toUint32 v in if u \<le> 2 ^ 31 - 1 then u else dflt)"

text \<open>
  The canvas calls of \<^verbatim>\<open>processChannel\<close> that crop the source to the rectangle and
  resize it (\<^verbatim>\<open>putImageData\<close>, \<^verbatim>\<open>drawImage\<close>, \<^verbatim>\<open>getImageData\<close>) are the browser's; they
  are the parameter \<open>draw\<close>, which gives the pixel array of the resized crop, and which
  is reached only where \<^verbatim>\<open>getImageData\<close> accepts the two sizes. The 2D context is taken
  to exist, so \<^verbatim>\<open>processChannel\<close> returns its canvas: the result is the pixel array
  that \<^verbatim>\<open>putImageData\<close> is given at the end. The parameter \<^verbatim>\<open>colorFilter\<close> is not used
  by the code.
\<close>

type_synonym canvas_draw = "ImageData \<Rightarrow> rect \<Rightarrow> number \<Rightarrow> number \<Rightarrow> int list"

datatype colorFilter = Red | Green | Blue | Merge

definition processChannel ::
  "rounding \<Rightarrow> canvas_draw \<Rightarrow> ProcessingConfig \<Rightarrow> number \<Rightarrow> ImageData \<Rightarrow> rect \<Rightarrow> colorFilter \<Rightarrow>
     error + int list" where
  "processChannel R draw config random source roi colorFilter =
     (case imageDataSize (targetWidth config) (targetHeight config) of
        Inl e \<Rightarrow> Inl e
      | Inr n \<Rightarrow>
          Inr (adjustBrightness R config random
                 (draw source roi (targetWidth config) (targetHeight config))))"

text \<open>
  The merge loop of \<^verbatim>\<open>processRow\<close>, over the pixel array \<^verbatim>\<open>mData.data\<close>. The test
  \<^verbatim>\<open>===\<close> compares what the reads return, \<^verbatim>\<open>undefined\<close> included.
\<close>

function mergeChannels :: "rounding \<Rightarrow> int list \<Rightarrow> int list \<Rightarrow> nat \<Rightarrow> int list \<Rightarrow> int list" where
  "mergeChannels R d1 d2 i mData =
     (if i < length mData then
        let gray1 = u8_read d1 i;
            gray2 = u8_read d2 i;
            isGray1 = (u8_read d1 i = u8_read d1 (i + 1)) \<and> (u8_read d1 (i + 1) = u8_read d1 (i + 2));
            mData =
              (if isGray1
               then mData[i := toUint8Clamp (to_number gray2),
                          i + 1 := toUint8Clamp (to_number gray1),
                          i + 2 := 0]
               else mData[i := toUint8Clamp (nmin (Fin 255) (nadd R (u8_get d1 i) (u8_get d2 i))),
                          i + 1 := toUint8Clamp
                             (nmin (Fin 255) (nadd R (u8_get d1 (i + 1)) (u8_get d2 (i + 1)))),
                          i + 2 := toUint8Clamp
                             (nmin (Fin 255) (nadd R (u8_get d1 (i + 2)) (u8_get d2 (i + 2))))])
        in mergeChannels R d1 d2 (i + 4) (mData[i + 3 := 255])
      else mData)"
  by pat_completeness auto
termination
  by (relation "measure (\<lambda>(R, d1, d2, i, mData). length mData - i)") auto

text \<open>
  \<^verbatim>\<open>processRow\<close>: the rectangle, the pixels of the two channel canvases, the merged
  image and the size of the final canvas. The merge loop does not read the arrays the
  brightness loops wrote: it reads the two channel canvases again with \<^verbatim>\<open>getImageData\<close>,
  and what a canvas returns for the pixels it was given by \<^verbatim>\<open>putImageData\<close> is the
  browser's, the parameter \<open>readBack\<close> (a pixel that is not opaque may come back
  changed). \<open>random1\<close> and \<open>random2\<close> are the two values \<^verbatim>\<open>Math.random()\<close> returns. An
  exception of the canvas is the result \<open>Inl\<close>, a scan that does not end is \<open>None\<close>. The
  text labels drawn on the final canvas are not modelled.
\<close>

type_synonym canvas_read = "int list \<Rightarrow> int list"

record row =
  row_roi :: rect
  row_c1 :: "int list"
  row_c2 :: "int list"
  row_merged :: "int list"
  row_width :: int
  row_height :: int

definition processRow ::
  "rounding \<Rightarrow> canvas_draw \<Rightarrow> canvas_read \<Rightarrow> number \<Rightarrow> number \<Rightarrow> ImageData \<Rightarrow> ImageData \<Rightarrow>
     ProcessingConfig \<Rightarrow> (error + row) option" where
  "processRow R draw readBack random1 random2 img1 img2 config =
     (let ratio = ndiv R (targetWidth config) (targetHeight config)
      in findCoBrightestROI R img1 img2 ratio (clipBottom config) \<bind> (\<lambda>roi.
           case processChannel R draw config random1 img1 roi Green of
             Inl e \<Rightarrow> Some (Inl e)
           | Inr c1 \<Rightarrow>
               (case processChannel R draw config random2 img2 roi Red of
                  Inl e \<Rightarrow> Some (Inl e)
                | Inr c2 \<Rightarrow>
                    (case imageDataSize (targetWidth config) (targetHeight config) of
                       Inl e \<Rightarrow> Some (Inl e)
                     | Inr n \<Rightarrow>
                         let d1 = readBack c1;
                             d2 = readBack c2;
                             mData = replicate (4 * n) 0;
                             merged = mergeChannels R d1 d2 0 mData;
                             finalWidth = nadd R (nmul R (targetWidth config) (Fin 3))
                                                 (nmul R (padding config) (Fin 2))
                         in Some (Inr \<lparr> row_roi = roi, row_c1 = d1, row_c2 = d2,
                                          row_merged = merged,
                                          row_width = canvasSize 300 finalWidth,
                                          row_height = canvasSize 150 (targetHeight config) \<rparr>)))))"

section \<open>Auxiliary definitions\<close>

text \<open>
  Lines 71 and 75 to 81 of \<^verbatim>\<open>findCoBrightestROI\<close> as functions of their own: the effective
  height and the crop size. \<open>findCoBrightestROI_unfold\<close> below shows that they are what
  \<open>findCoBrightestROI\<close> computes.
\<close>

definition effectiveHeight :: "rounding \<Rightarrow> ImageData \<Rightarrow> number \<Rightarrow> number" where
  "effectiveHeight R img1 clip = nmax (Fin 1) (nsub R (num (int (img_height img1))) clip)"

definition cropSize :: "rounding \<Rightarrow> number \<Rightarrow> number \<Rightarrow> number \<Rightarrow> number \<times> number" where
  "cropSize R w h targetAspectRatio =
     (let cropW = w;
          cropH = nfloor (ndiv R w targetAspectRatio)
      in if ngt cropH h then (nfloor (nmul R h targetAspectRatio), h) else (cropW, cropH))"

text \<open>
  The values a loop counter of the scan takes: a multiple of 4 from 0 up to \<open>2 ^ 55\<close>,
  where \<^verbatim>\<open>x += 4\<close> stops changing a double. A \<open>corner\<close> is a scan state whose best position
  is made of two multiples of 4.
\<close>

definition counter :: "number \<Rightarrow> bool" where
  "counter x \<longleftrightarrow> (\<exists>k::int. x = num (4 * k) \<and> 0 \<le> k \<and> k \<le> 2 ^ 53)"

definition corner :: "scan \<Rightarrow> bool" where
  "corner s \<longleftrightarrow>
     (\<exists>i j :: int. bestX s = num (4 * i) \<and> 0 \<le> i \<and> bestY s = num (4 * j) \<and> 0 \<le> j)"

text \<open>
  The merge rule in the words of the specification, on pixels \<open>(R, G, B, A)\<close>; \<open>pixel d p\<close>
  is pixel number \<open>p\<close> of a pixel array. \<open>mergeStep\<close> is one iteration of the merge loop
  on arrays whose reads are in range.
\<close>

definition pixel :: "int list \<Rightarrow> nat \<Rightarrow> int \<times> int \<times> int \<times> int" where
  "pixel d p = (d ! (4 * p), d ! (4 * p + 1), d ! (4 * p + 2), d ! (4 * p + 3))"

definition spec_mergePixel ::
  "int \<times> int \<times> int \<times> int \<Rightarrow> int \<times> int \<times> int \<times> int \<Rightarrow> int \<times> int \<times> int \<times> int" where
  "spec_mergePixel c1 c2 =
     (case (c1, c2) of ((r1, g1, b1, a1), (r2, g2, b2, a2)) \<Rightarrow>
        if r1 = g1 \<and> g1 = b1 \<and> r1 = b1 then (r2, r1, 0, 255)
        else (min 255 (r1 + r2), min 255 (g1 + g2), min 255 (b1 + b2), 255))"

definition mergeStep :: "int list \<Rightarrow> int list \<Rightarrow> nat \<Rightarrow> int list \<Rightarrow> int list" where
  "mergeStep d1 d2 i mData =
     (if d1 ! i = d1 ! (i + 1) \<and> d1 ! (i + 1) = d1 ! (i + 2)
      then mData[i := d2 ! i, i + 1 := d1 ! i, i + 2 := 0, i + 3 := 255]
      else mData[i := min 255 (d1 ! i + d2 ! i), i + 1 := min 255 (d1 ! (i + 1) + d2 ! (i + 1)),
                 i + 2 := min 255 (d1 ! (i + 2) + d2 ! (i + 2)), i + 3 := 255])"

text \<open>
  The quantity the specification compares \<^verbatim>\<open>getRectSum\<close> with: the luminance
  \<open>0.299 R + 0.587 G + 0.114 B\<close> of a pixel and its sum over the pixels of a rectangle,
  both as rational numbers, with no rounding.
\<close>

definition lumExact :: "int list \<Rightarrow> nat \<Rightarrow> rat" where
  "lumExact data idx =
     299 / 1000 * of_int (data ! idx) + 587 / 1000 * of_int (data ! (idx + 1)) +
     114 / 1000 * of_int (data ! (idx + 2))"

definition bruteForceSum :: "int list \<Rightarrow> nat \<Rightarrow> nat \<Rightarrow> nat \<Rightarrow> nat \<Rightarrow> nat \<Rightarrow> rat" where
  "bruteForceSum data width x y w h =
     (\<Sum>j \<leftarrow> [y ..< y + h]. \<Sum>i \<leftarrow> [x ..< x + w]. lumExact data ((j * width + i) * 4))"

text \<open>
  A canvas for the examples: \<open>drawNearest\<close> crops the rectangle and resizes it by taking,
  for each pixel of the target, the nearest pixel of the source to its upper left. Where
  the rectangle has the size of the target this is the plain crop, which every canvas
  draws.
\<close>

definition the_fin :: "number \<Rightarrow> rat" where
  "the_fin v = (case v of Fin q \<Rightarrow> q | _ \<Rightarrow> 0)"

definition pixelAt :: "ImageData \<Rightarrow> int \<Rightarrow> int \<Rightarrow> int list" where
  "pixelAt source x y =
     (if 0 \<le> x \<and> x < int (img_width source) \<and> 0 \<le> y \<and> y < int (img_height source)
      then take 4 (drop (4 * (nat y * img_width source + nat x)) (img_data source))
      else [0, 0, 0, 0])"

definition drawNearest :: canvas_draw where
  "drawNearest source roi w h =
     concat (map (\<lambda>j. concat (map (\<lambda>i.
        pixelAt source
          \<lfloor>the_fin (rect_x roi) + of_nat i * the_fin (rect_w roi) / the_fin w\<rfloor>
          \<lfloor>the_fin (rect_y roi) + of_nat j * the_fin (rect_h roi) / the_fin h\<rfloor>)
        [0 ..< nat \<lfloor>the_fin w\<rfloor>])) [0 ..< nat \<lfloor>the_fin h\<rfloor>])"

text \<open>
  A configuration for the examples: the two sizes and the clipped height are given, the
  target intensity is 200 and there is no padding, no jitter and no label.
\<close>

definition sampleConfig :: "int \<Rightarrow> int \<Rightarrow> int \<Rightarrow> ProcessingConfig" where
  "sampleConfig tw th clip =
     \<lparr> targetWidth = num tw, targetHeight = num th, targetIntensity = Fin 200,
       padding = Fin 0, randomness = Fin 0, clipBottom = num clip,
       columnLabels = ([], [], []), rowLabelFontSize = Fin 24, columnLabelFontSize = Fin 24,
       fontFamily = [], showLabels = False \<rparr>"

declare integralRow.simps [simp del]
declare integralRows.simps [simp del]
declare maxIntensity.simps [simp del]
declare applyScale.simps [simp del]
declare mergeChannels.simps [simp del]

section \<open>Properties of the rounding\<close>

text \<open>
  Two facts about rounding to nearest carry the proofs below: a number that the format
  represents is not changed, and rounding is monotone.
\<close>

lemma pow2_powi: "pow2 e = 2 powi e"
  by (simp add: pow2_def power_int_def field_simps)

lemma pow2_pos: "0 < pow2 e"
  by (simp add: pow2_powi)

lemma pow2_add: "pow2 (a + b) = pow2 a * pow2 b"
  by (simp add: pow2_powi power_int_add)

lemma pow2_diff: "pow2 (a - b) = pow2 a / pow2 b"
  by (simp add: pow2_powi power_int_diff)

lemma pow2_mono: "a \<le> b \<Longrightarrow> pow2 a \<le> pow2 b"
  by (simp add: pow2_powi power_int_increasing)

lemma pow2_strict_mono: "a < b \<Longrightarrow> pow2 a < pow2 b"
  by (simp add: pow2_powi power_int_strict_increasing)

lemma pow2_less_iff: "pow2 a < pow2 b \<longleftrightarrow> a < b"
  using pow2_mono [of b a] pow2_strict_mono [of a b] by (auto simp: not_le [symmetric])

lemma pow2_nat: "0 \<le> e \<Longrightarrow> pow2 e = of_int (2 ^ nat e)"
  by (simp add: pow2_def)

lemma pow2_0: "pow2 0 = 1"
  by (simp add: pow2_def)

lemma pow2_int_le: "0 < e \<Longrightarrow> pow2 (e - 1) \<le> of_int a \<longleftrightarrow> 2 ^ nat (e - 1) \<le> a"
  by (simp add: pow2_nat del: of_int_power)

lemma pow2_int_less: "0 < e \<Longrightarrow> of_int a < pow2 e \<longleftrightarrow> a < 2 ^ nat e"
  by (simp add: pow2_nat del: of_int_power)

lemma ilog2_bounds:
  assumes "0 < q"
  shows "pow2 (ilog2 q) \<le> q \<and> q < pow2 (ilog2 q + 1)"
proof -
  obtain a b where ab: "quotient_of q = (a, b)" by (cases "quotient_of q")
  have b: "0 < b" using ab by (rule quotient_of_denom_pos)
  have q: "q = of_int a / of_int b" using ab by (rule quotient_of_div)
  have a: "0 < a" using assms b q by (simp add: zero_less_divide_iff)
  define d where "d = bitlen a - bitlen b"
  have la: "0 < bitlen a" "0 < bitlen b"
    using a b bitlen_eq_zero_iff [of a] bitlen_eq_zero_iff [of b] bitlen_nonneg [of a] bitlen_nonneg [of b]
    by auto
  have A: "pow2 (bitlen a - 1) \<le> of_int a" "of_int a < pow2 (bitlen a)"
    using bitlen_bounds [OF a] la by (simp_all only: pow2_int_le pow2_int_less)
  have B: "pow2 (bitlen b - 1) \<le> of_int b" "of_int b < pow2 (bitlen b)"
    using bitlen_bounds [OF b] la by (simp_all only: pow2_int_le pow2_int_less)
  have lo: "pow2 (d - 1) < q"
  proof -
    have "pow2 (d - 1) * of_int b < pow2 (d - 1) * pow2 (bitlen b)"
      using B pow2_pos by simp
    also have "\<dots> = pow2 (bitlen a - 1)"
      by (simp add: d_def flip: pow2_add)
    also have "\<dots> \<le> of_int a" by (rule A)
    finally show ?thesis using b by (simp add: q pos_less_divide_eq)
  qed
  have hi: "q < pow2 (d + 1)"
  proof -
    have "of_int a < pow2 (bitlen a)" by (rule A)
    also have "\<dots> = pow2 (d + 1) * pow2 (bitlen b - 1)"
      by (simp add: d_def flip: pow2_add)
    also have "\<dots> \<le> pow2 (d + 1) * of_int b"
      using B pow2_pos [of "d + 1"] by simp
    finally show ?thesis using b by (simp add: q pos_divide_less_eq)
  qed
  show ?thesis
    using lo hi ab by (auto simp: ilog2_def d_def Let_def not_le)
qed

lemma ilog2_unique:
  assumes "pow2 e \<le> q" "q < pow2 (e + 1)"
  shows "ilog2 q = e"
proof -
  have q: "0 < q" using assms pow2_pos [of e] by simp
  note b = ilog2_bounds [OF q]
  have "pow2 e < pow2 (ilog2 q + 1)" using assms b by simp
  moreover have "pow2 (ilog2 q) < pow2 (e + 1)" using assms b by simp
  ultimately show ?thesis by (simp add: pow2_less_iff)
qed

lemma ilog2_mono:
  assumes "0 < a" "a \<le> b"
  shows "ilog2 a \<le> ilog2 b"
proof -
  have "pow2 (ilog2 a) < pow2 (ilog2 b + 1)"
    using ilog2_bounds [of a] ilog2_bounds [of b] assms by simp
  then show ?thesis by (simp add: pow2_less_iff)
qed

lemma round_half_even_int [simp]: "round_half_even (of_int n) = n"
  by (simp add: round_half_even_def)

lemma round_half_even_bounds: "\<lfloor>q\<rfloor> \<le> round_half_even q \<and> round_half_even q \<le> \<lfloor>q\<rfloor> + 1"
  by (simp add: round_half_even_def Let_def)

lemma round_half_even_mono:
  assumes "x \<le> y"
  shows "round_half_even x \<le> round_half_even y"
proof (cases "\<lfloor>x\<rfloor> = \<lfloor>y\<rfloor>")
  case True
  then show ?thesis using assms by (auto simp: round_half_even_def Let_def)
next
  case False
  then have "\<lfloor>x\<rfloor> < \<lfloor>y\<rfloor>" using floor_mono [OF assms] by simp
  then show ?thesis
    using round_half_even_bounds [of x] round_half_even_bounds [of y] by linarith
qed

lemma round_half_even_minus: "round_half_even (- q) = - round_half_even q"
proof (cases "q = of_int \<lfloor>q\<rfloor>")
  case True
  then obtain n where "q = of_int n" ..
  then show ?thesis by (simp flip: of_int_minus)
next
  case False
  then have fl: "\<lfloor>- q\<rfloor> = - \<lfloor>q\<rfloor> - 1"
    by (smt (verit) ceiling_altdef ceiling_def of_int_floor_cancel)
  have "of_int \<lfloor>q\<rfloor> < q" using False
    by (metis less_eq_rat_def of_int_floor_le)
  then show ?thesis
    unfolding round_half_even_def Let_def fl
    by (auto simp: field_simps)
qed

lemma quantum_pos: "0 < quantum p emin q"
  by (simp add: quantum_def pow2_pos)

lemma quantum_minus: "quantum p emin (- q) = quantum p emin q"
  by (simp add: quantum_def)

lemma round_val_minus: "round_val p emin (- q) = - round_val p emin q"
  by (simp add: round_val_def quantum_minus round_half_even_minus)

lemma round_half_even_0 [simp]: "round_half_even 0 = 0"
  using round_half_even_int [of 0] by simp

lemma round_val_0: "round_val p emin 0 = 0"
  by (simp add: round_val_def)

lemma pow2_int: "0 \<le> e \<Longrightarrow> \<exists>n::int. pow2 e = of_int n"
  using pow2_nat by blast

lemma round_val_exact:
  assumes q: "q = of_int m * pow2 j" and m: "\<bar>m\<bar> < 2 ^ p" and j: "emin - int p + 1 \<le> j"
  shows "round_val p emin q = q"
proof (cases "q = 0")
  case True
  then show ?thesis by (simp add: round_val_0)
next
  case False
  define e where "e = max (ilog2 \<bar>q\<bar>) emin"
  have u: "quantum p emin q = pow2 (e - int p + 1)" by (simp add: quantum_def e_def)
  have le: "e - int p + 1 \<le> j"
  proof (cases "emin \<le> ilog2 \<bar>q\<bar>")
    case True
    have "pow2 (ilog2 \<bar>q\<bar>) \<le> \<bar>q\<bar>" using ilog2_bounds [of "\<bar>q\<bar>"] False by simp
    also have "\<bar>q\<bar> = of_int \<bar>m\<bar> * pow2 j"
      using pow2_pos [of j] by (simp add: q abs_mult)
    also have "\<dots> < of_int (2 ^ p) * pow2 j"
      using m pow2_pos [of j] by (simp only: mult_less_cancel_right_pos of_int_less_iff)
    also have "\<dots> = pow2 (int p + j)"
      by (simp add: pow2_add pow2_nat)
    finally have "ilog2 \<bar>q\<bar> < int p + j" by (simp add: pow2_less_iff)
    then show ?thesis using True by (simp add: e_def)
  next
    case False
    then show ?thesis using j by (simp add: e_def)
  qed
  obtain n :: int where n: "pow2 (j - (e - int p + 1)) = of_int n"
    using pow2_int [of "j - (e - int p + 1)"] le by auto
  have "q / quantum p emin q = of_int m * pow2 (j - (e - int p + 1))"
    unfolding u by (simp add: q pow2_diff)
  also have "\<dots> = of_int (m * n)" by (simp add: n)
  finally have "q / quantum p emin q = of_int (m * n)" .
  then have "round_val p emin q = q / quantum p emin q * quantum p emin q"
    unfolding round_val_def by (simp only: round_half_even_int)
  then show ?thesis using quantum_pos [of p emin q] by simp
qed

lemma round_to_exact:
  assumes "q = of_int m * pow2 j" "\<bar>m\<bar> < 2 ^ p" "emin - int p + 1 \<le> j" "\<bar>q\<bar> < pow2 (emax + 1)"
  shows "round_to p emin emax q = Fin q"
  using assms round_val_exact [OF assms(1-3)] by (simp add: round_to_def)

lemma rnd64_int:
  assumes "\<bar>n\<bar> \<le> 2 ^ 53"
  shows "rnd64 (of_int n) = Fin (of_int n)"
proof (cases "\<bar>n\<bar> = 2 ^ 53")
  case True
  then have "n = 2 ^ 53 \<or> n = - (2 ^ 53)" by linarith
  then have q: "rat_of_int n = of_int (if 0 < n then 1 else - 1) * pow2 53"
    by (auto simp: pow2_def)
  have "\<bar>rat_of_int n\<bar> < pow2 (1023 + 1)"
    using True pow2_strict_mono [of 53 1024] 
    by (simp add: pow2_nat flip: of_int_abs)
  then show ?thesis
    unfolding rnd64_def by (intro round_to_exact [OF q]) auto
next
  case False
  then have lt: "\<bar>n\<bar> < 2 ^ 53" using assms by simp
  have q: "rat_of_int n = of_int n * pow2 0" by (simp add: pow2_0)
  have "\<bar>rat_of_int n\<bar> < rat_of_int (2 ^ 53)"
    using lt by (simp only: of_int_less_iff flip: of_int_abs)
  also have "\<dots> = pow2 53" by (simp add: pow2_nat)
  also have "\<dots> < pow2 (1023 + 1)" by (simp add: pow2_less_iff)
  finally show ?thesis
    unfolding rnd64_def using lt by (intro round_to_exact [OF q]) auto
qed

lemma round_val_between:
  fixes emin :: int
  assumes "0 < p" "0 < q" and e_def: "e = max (ilog2 q) emin"
  shows "(if emin \<le> ilog2 q then pow2 e else 0) \<le> round_val p emin q"
    and "round_val p emin q \<le> pow2 (e + 1)"
proof -
  define u where "u = pow2 (e - int p + 1)"
  have u: "quantum p emin q = u" using assms by (simp add: quantum_def u_def e_def)
  have u0: "0 < u" by (simp add: u_def pow2_pos)
  obtain a :: int where a: "pow2 (int p - 1) = of_int a"
    using pow2_int [of "int p - 1"] assms by auto
  obtain b :: int where b: "pow2 (int p) = of_int b"
    using pow2_int [of "int p"] by auto
  have lo: "pow2 e = of_int a * u"
    by (simp add: u_def flip: a pow2_add)
  have hi: "pow2 (e + 1) = of_int b * u"
    by (simp add: u_def flip: b pow2_add)
  have qhi: "q \<le> pow2 (e + 1)"
  proof -
    have "q < pow2 (ilog2 q + 1)" using ilog2_bounds [OF assms(2)] by simp
    also have "\<dots> \<le> pow2 (e + 1)" by (rule pow2_mono) (simp add: e_def)
    finally show ?thesis by simp
  qed
  then have "q / u \<le> of_int b" using u0 by (simp add: hi pos_divide_le_eq)
  then have "round_half_even (q / u) \<le> b"
    using round_half_even_mono [of "q / u" "of_int b"] by simp
  then have "rat_of_int (round_half_even (q / u)) * u \<le> of_int b * u"
    using u0 by (simp only: mult_le_cancel_right_pos of_int_le_iff)
  then show "round_val p emin q \<le> pow2 (e + 1)"
    by (simp add: round_val_def u hi)
  show "(if emin \<le> ilog2 q then pow2 e else 0) \<le> round_val p emin q"
  proof (cases "emin \<le> ilog2 q")
    case True
    then have "e = ilog2 q" by (simp add: e_def)
    then have "pow2 e \<le> q" using ilog2_bounds [OF assms(2)] by simp
    then have "of_int a \<le> q / u" using u0 by (simp add: lo pos_le_divide_eq)
    then have "a \<le> round_half_even (q / u)"
      using round_half_even_mono [of "of_int a" "q / u"] by simp
    then have "of_int a * u \<le> rat_of_int (round_half_even (q / u)) * u"
      using u0 by (simp only: mult_le_cancel_right_pos of_int_le_iff)
    then show ?thesis using True by (simp add: round_val_def u lo)
  next
    case False
    have "0 \<le> q / u" using assms u0 by simp
    then have "0 \<le> round_half_even (q / u)"
      using round_half_even_mono [of 0 "q / u"] by simp
    then show ?thesis using False u0 by (simp add: round_val_def u)
  qed
qed

lemma round_val_nonneg:
  assumes "0 < p" "0 \<le> q"
  shows "0 \<le> round_val p emin q"
proof (cases "q = 0")
  case True
  then show ?thesis by (simp add: round_val_0)
next
  case False
  then have "0 < q" using assms by simp
  from round_val_between(1) [OF assms(1) this refl, of emin] pow2_pos [of "max (ilog2 q) emin"]
  show ?thesis by (auto split: if_splits)
qed

lemma round_val_mono_pos:
  assumes p: "0 < p" and a: "0 < a" and ab: "a \<le> b"
  shows "round_val p emin a \<le> round_val p emin b"
proof -
  have b: "0 < b" using a ab by simp
  define ea where "ea = max (ilog2 a) emin"
  define eb where "eb = max (ilog2 b) emin"
  have le: "ea \<le> eb" using ilog2_mono [OF a ab] by (auto simp: ea_def eb_def)
  show ?thesis
  proof (cases "ea = eb")
    case True
    then have u: "quantum p emin a = quantum p emin b"
      using a b by (simp add: quantum_def ea_def eb_def)
    have "a / quantum p emin b \<le> b / quantum p emin b"
      using ab quantum_pos [of p emin b] by (simp add: divide_right_mono)
    then have "round_half_even (a / quantum p emin b) \<le> round_half_even (b / quantum p emin b)"
      by (rule round_half_even_mono)
    then show ?thesis
      unfolding round_val_def u using quantum_pos [of p emin b]
      by (simp only: mult_le_cancel_right_pos of_int_le_iff)
  next
    case False
    then have lt: "ea < eb" using le by simp
    then have eb: "emin \<le> ilog2 b" "eb = ilog2 b"
      by (auto simp: ea_def eb_def)
    have "round_val p emin a \<le> pow2 (ea + 1)"
      using round_val_between(2) [OF p a refl, of emin] by (simp add: ea_def)
    also have "\<dots> \<le> pow2 eb" using lt by (intro pow2_mono) simp
    also have "\<dots> \<le> round_val p emin b"
      using round_val_between(1) [OF p b refl, of emin] eb by simp
    finally show ?thesis .
  qed
qed

lemma round_val_mono:
  assumes p: "0 < p" and ab: "a \<le> b"
  shows "round_val p emin a \<le> round_val p emin b"
proof -
  consider "0 < a" | "a \<le> 0" "0 \<le> b" | "b < 0" by linarith
  then show ?thesis
  proof cases
    case 1
    then show ?thesis using round_val_mono_pos [OF p _ ab] by simp
  next
    case 2
    have "round_val p emin a \<le> 0"
      using round_val_nonneg [OF p, of "- a" emin] 2 by (simp add: round_val_minus)
    also have "0 \<le> round_val p emin b" using round_val_nonneg [OF p] 2 by simp
    finally show ?thesis .
  next
    case 3
    then have "round_val p emin (- b) \<le> round_val p emin (- a)"
      using round_val_mono_pos [OF p, of "- b" "- a" emin] ab by simp
    then show ?thesis by (simp add: round_val_minus)
  qed
qed

lemma round_to_mono:
  assumes p: "0 < p" and ab: "a \<le> b"
  shows "nle (round_to p emin emax a) (round_to p emin emax b)"
proof -
  note m = round_val_mono [OF p ab, of emin]
  have na: "a \<le> 0 \<Longrightarrow> round_val p emin a \<le> 0"
    using round_val_nonneg [OF p, of "- a" emin] by (simp add: round_val_minus)
  have nb: "b \<le> 0 \<Longrightarrow> round_val p emin b \<le> 0"
    using round_val_nonneg [OF p, of "- b" emin] by (simp add: round_val_minus)
  have pa: "0 \<le> a \<Longrightarrow> 0 \<le> round_val p emin a" using round_val_nonneg [OF p] by simp
  have pb: "0 \<le> b \<Longrightarrow> 0 \<le> round_val p emin b" using round_val_nonneg [OF p] by simp
  have z: "0 < pow2 (emax + 1)" by (rule pow2_pos)
  show ?thesis
    using m ab na nb pa pb z
    by (auto simp: round_to_def Let_def round_val_0 not_le abs_if split: if_splits)
qed

lemma rnd64_mono: "a \<le> b \<Longrightarrow> nle (rnd64 a) (rnd64 b)"
  unfolding rnd64_def by (rule round_to_mono) simp_all

section \<open>The scan of the region of interest\<close>

lemma findCoBrightestROI_unfold:
  "findCoBrightestROI R img1 img2 targetAspectRatio clip =
     (let w = num (int (img_width img1));
          h = effectiveHeight R img1 clip;
          (cropW, cropH) = cropSize R w h targetAspectRatio
      in scanY R (computeIntegralImage R (img_data img1) (img_width img1) (img_height img1))
           (computeIntegralImage R (img_data img2) (img_width img1) (img_height img1))
           w h cropW cropH (Fin 0)
           \<lparr> maxBrightness = Fin (- 1), bestX = Fin 0, bestY = Fin 0 \<rparr>
         \<bind> (\<lambda>s. Some \<lparr> rect_x = bestX s, rect_y = bestY s, rect_w = cropW, rect_h = cropH \<rparr>))"
  by (simp add: findCoBrightestROI_def cropSize_def effectiveHeight_def Let_def)

lemma nle_Fin [simp]: "nle (Fin a) (Fin b) \<longleftrightarrow> a \<le> b"
  by (simp add: not_less)

lemma round_to_not_NaN [simp]: "round_to p emin emax q \<noteq> NaN"
  by (simp add: round_to_def Let_def)

lemma rnd64_0 [simp]: "rnd64 0 = Fin 0"
  by (simp add: rnd64_def round_to_def)

lemma rnd64_between:
  assumes "of_int a \<le> q" "q \<le> of_int b" "\<bar>a\<bar> \<le> 2 ^ 53" "\<bar>b\<bar> \<le> 2 ^ 53"
  shows "\<exists>v. rnd64 q = Fin v \<and> of_int a \<le> v \<and> v \<le> of_int b"
proof -
  have 1: "nle (Fin (of_int a)) (rnd64 q)"
    using rnd64_mono [OF assms(1)] rnd64_int [OF assms(3)] by simp
  have 2: "nle (rnd64 q) (Fin (of_int b))"
    using rnd64_mono [OF assms(2)] rnd64_int [OF assms(4)] by simp
  show ?thesis
  proof (cases "rnd64 q")
    case (Fin v)
    then show ?thesis using 1 2 by simp
  next
    case PInf
    then show ?thesis using 2 by simp
  next
    case NInf
    then show ?thesis using 1 by simp
  next
    case NaN
    then show ?thesis by (simp add: rnd64_def)
  qed
qed

lemma rnd64_floor:
  assumes "0 \<le> q" "q < 2 ^ 53"
  shows "\<exists>k::int. nfloor (rnd64 q) = num k \<and> \<lfloor>q\<rfloor> \<le> k \<and> k \<le> \<lfloor>q\<rfloor> + 1 \<and>
           of_int k \<le> q + 1 \<and> (\<forall>n::int. q \<le> of_int n \<longrightarrow> \<bar>n\<bar> \<le> 2 ^ 53 \<longrightarrow> k \<le> n)"
proof -
  have f0: "0 \<le> \<lfloor>q\<rfloor>" using assms by simp
  have f1: "\<lfloor>q\<rfloor> < 2 ^ 53" using assms by (simp add: floor_less_iff)
  have "q \<le> of_int (\<lfloor>q\<rfloor> + 1)" by linarith
  then obtain v where v: "rnd64 q = Fin v" "of_int \<lfloor>q\<rfloor> \<le> v" "v \<le> of_int (\<lfloor>q\<rfloor> + 1)"
    using rnd64_between [of "\<lfloor>q\<rfloor>" q "\<lfloor>q\<rfloor> + 1"] f0 f1 by auto
  have k1: "\<lfloor>q\<rfloor> \<le> \<lfloor>v\<rfloor>" using v(2) by (simp add: le_floor_iff)
  have k2: "\<lfloor>v\<rfloor> \<le> \<lfloor>q\<rfloor> + 1" using v(3) floor_mono [of v "of_int (\<lfloor>q\<rfloor> + 1)"] by simp
  have k3: "rat_of_int \<lfloor>v\<rfloor> \<le> q + 1"
  proof -
    have "rat_of_int \<lfloor>v\<rfloor> \<le> of_int (\<lfloor>q\<rfloor> + 1)" using k2 by (simp only: of_int_le_iff)
    also have "\<dots> \<le> q + 1" by simp
    finally show ?thesis .
  qed
  have k4: "\<lfloor>v\<rfloor> \<le> n" if qn: "q \<le> of_int n" "\<bar>n\<bar> \<le> 2 ^ 53" for n :: int
  proof -
    obtain v' where "rnd64 q = Fin v'" "v' \<le> of_int n"
      using rnd64_between [of "\<lfloor>q\<rfloor>" q n] qn f0 f1 by auto
    then show ?thesis using v(1) floor_mono [of v' "of_int n"] by simp
  qed
  show ?thesis using v(1) k1 k2 k3 k4 by (auto simp: num_def)
qed

lemma ngt_Fin [simp]: "ngt (Fin a) (Fin b) \<longleftrightarrow> b < a"
  by simp

lemma effectiveHeight_valid:
  assumes "0 \<le> clip" "img_height img1 < 2 ^ 32"
  shows "effectiveHeight ieee img1 (num clip) = num (max 1 (int (img_height img1) - clip))"
proof -
  let ?d = "int (img_height img1) - clip"
  have d: "?d < 2 ^ 32" using assms by simp
  have sub: "nsub ieee (num (int (img_height img1))) (num clip) = rnd64 (of_int ?d)"
    by (simp add: num_def ieee_def)
  show ?thesis
  proof (cases "0 \<le> ?d")
    case True
    then have "rnd64 (of_int ?d) = Fin (of_int ?d)" using d by (intro rnd64_int) simp
    then show ?thesis unfolding effectiveHeight_def sub by (simp add: num_def max_def)
  next
    case False
    then have "rat_of_int ?d \<le> 0" by simp
    from rnd64_mono [OF this] have "nle (rnd64 (of_int ?d)) (Fin 0)" by simp
    then have "nmax (Fin 1) (rnd64 (of_int ?d)) = Fin 1"
      by (cases "rnd64 (rat_of_int ?d)") auto
    then show ?thesis using False unfolding effectiveHeight_def sub by (simp add: num_def max_def)
  qed
qed

lemma cropSize_valid:
  fixes W hh :: int
  assumes r: "0 < r" and W: "0 \<le> W" "W < 2 ^ 32" and hh: "1 \<le> hh" "hh < 2 ^ 32"
  shows "\<exists>cw ch :: int. cropSize ieee (num W) (num hh) (Fin r) = (num cw, num ch) \<and>
           0 \<le> cw \<and> cw \<le> W \<and> 0 \<le> ch \<and> ch \<le> hh \<and>
           ((cw = W \<and> \<bar>of_int ch - of_int W / r\<bar> \<le> 1) \<or>
            (ch = hh \<and> \<bar>of_int cw - of_int hh * r\<bar> \<le> 1))"
proof -
  let ?q = "rat_of_int W / r"
  have q0: "0 \<le> ?q" using r W by simp
  have W32: "rat_of_int W < 2 ^ 32"
  proof -
    have "rat_of_int W < of_int (2 ^ 32)" using W(2) by (simp only: of_int_less_iff)
    then show ?thesis by simp
  qed
  have W53: "rat_of_int W < 2 ^ 53"
    using W32 by (rule less_trans) simp
  have div: "ndiv ieee (num W) (Fin r) = rnd64 ?q" using r by (simp add: num_def ieee_def)
  have mul: "nmul ieee (num hh) (Fin r) = rnd64 (of_int hh * r)" by (simp add: num_def ieee_def)
  show ?thesis
  proof (cases "?q < of_int (hh + 1)")
    case True
    have "rat_of_int (hh + 1) \<le> of_int (2 ^ 32 + 1)"
      using hh(2) by (simp only: of_int_le_iff)
    also have "\<dots> < 2 ^ 53" by simp
    finally have "?q < 2 ^ 53" using True by simp
    from rnd64_floor [OF q0 this] obtain k :: int where
      k: "nfloor (rnd64 ?q) = num k" "\<lfloor>?q\<rfloor> \<le> k" "k \<le> \<lfloor>?q\<rfloor> + 1" "of_int k \<le> ?q + 1"
      by blast
    have k0: "0 \<le> k" using k(2) q0 by (smt (verit) zero_le_floor)
    have "\<lfloor>?q\<rfloor> < hh + 1" using True by (simp only: floor_less_iff)
    then have kh: "k \<le> hh + 1" using k(3) by linarith
    have "rat_of_int \<lfloor>?q\<rfloor> - 1 \<le> ?q - 1" by simp
    have lo: "?q - 1 \<le> of_int k"
    proof -
      have "?q - 1 \<le> of_int \<lfloor>?q\<rfloor>" by linarith
      also have "\<dots> \<le> of_int k" using k(2) by (simp only: of_int_le_iff)
      finally show ?thesis .
    qed
    show ?thesis
    proof (cases "k \<le> hh")
      case True
      then have "cropSize ieee (num W) (num hh) (Fin r) = (num W, num k)"
        by (simp add: cropSize_def div k(1) Let_def) (simp add: num_def)
      moreover have "\<bar>of_int k - ?q\<bar> \<le> 1" using lo k(4) by (simp add: abs_le_iff)
      ultimately show ?thesis using True k0 W
        by (intro exI [of _ W] exI [of _ k]) simp
    next
      case False
      then have keq: "k = hh + 1" using kh by simp
      text \<open>the quotient was rounded up to \<open>hh + 1\<close>: the fallback\<close>
      have hq: "of_int hh \<le> ?q" using keq k(3) 
        by (metis add_le_cancel_right of_int_floor_le order_trans of_int_le_iff)
      then have hr: "of_int hh * r \<le> of_int W" using r by (simp add: pos_le_divide_eq)
      have hr0: "0 \<le> of_int hh * r" using r hh by simp
      have "of_int hh * r < 2 ^ 53" using hr W53 by (rule le_less_trans)
      from rnd64_floor [OF hr0 this] obtain c :: int where
        c: "nfloor (rnd64 (of_int hh * r)) = num c" "\<lfloor>of_int hh * r\<rfloor> \<le> c"
           "of_int c \<le> of_int hh * r + 1"
           "\<forall>n::int. of_int hh * r \<le> of_int n \<longrightarrow> \<bar>n\<bar> \<le> 2 ^ 53 \<longrightarrow> c \<le> n"
        by blast
      have cW: "c \<le> W" using c(4) hr W by simp
      have c0: "0 \<le> c" using c(2) hr0 by (smt (verit) zero_le_floor)
      have lo': "of_int hh * r - 1 \<le> of_int c"
      proof -
        have "of_int hh * r - 1 \<le> of_int \<lfloor>of_int hh * r\<rfloor>" by linarith
        also have "\<dots> \<le> of_int c" using c(2) by (simp only: of_int_le_iff)
        finally show ?thesis .
      qed
      have "cropSize ieee (num W) (num hh) (Fin r) = (num c, num hh)"
        using False by (simp add: cropSize_def div k(1) Let_def mul c(1)) (simp add: num_def)
      moreover have "\<bar>of_int c - of_int hh * r\<bar> \<le> 1" using lo' c(3) by (simp add: abs_le_iff)
      ultimately show ?thesis using c0 cW hh
        by (intro exI [of _ c] exI [of _ hh]) simp
    qed
  next
    case False
    then have ge: "of_int (hh + 1) \<le> ?q" by simp
    have gt: "ngt (nfloor (rnd64 ?q)) (num hh)"
    proof -
      have "nle (rnd64 (of_int (hh + 1))) (rnd64 ?q)" using ge by (rule rnd64_mono)
      moreover have "rnd64 (of_int (hh + 1)) = Fin (of_int (hh + 1))"
        using hh by (intro rnd64_int) simp
      ultimately have "nle (Fin (of_int (hh + 1))) (rnd64 ?q)" by simp
      then show ?thesis
      proof (cases "rnd64 ?q")
        case (Fin v)
        with \<open>nle (Fin (of_int (hh + 1))) (rnd64 ?q)\<close> have "of_int (hh + 1) \<le> v" by simp
        then have "hh + 1 \<le> \<lfloor>v\<rfloor>" by (simp only: le_floor_iff)
        then have "rat_of_int hh < of_int \<lfloor>v\<rfloor>" by (simp only: of_int_less_iff)
        then show ?thesis using Fin by (simp add: num_def)
      qed (simp_all add: num_def)
    qed
    have "of_int hh \<le> ?q" using ge by simp
    then have hr: "of_int hh * r \<le> of_int W" using r by (simp add: pos_le_divide_eq)
    have hr0: "0 \<le> of_int hh * r" using r hh by simp
    have "of_int hh * r < 2 ^ 53" using hr W53 by (rule le_less_trans)
    from rnd64_floor [OF hr0 this] obtain c :: int where
      c: "nfloor (rnd64 (of_int hh * r)) = num c" "\<lfloor>of_int hh * r\<rfloor> \<le> c"
         "of_int c \<le> of_int hh * r + 1"
         "\<forall>n::int. of_int hh * r \<le> of_int n \<longrightarrow> \<bar>n\<bar> \<le> 2 ^ 53 \<longrightarrow> c \<le> n"
      by blast
    have cW: "c \<le> W" using c(4) hr W by simp
    have c0: "0 \<le> c" using c(2) hr0 by (smt (verit) zero_le_floor)
    have lo': "of_int hh * r - 1 \<le> of_int c"
    proof -
      have "of_int hh * r - 1 \<le> of_int \<lfloor>of_int hh * r\<rfloor>" by linarith
      also have "\<dots> \<le> of_int c" using c(2) by (simp only: of_int_le_iff)
      finally show ?thesis .
    qed
    have "cropSize ieee (num W) (num hh) (Fin r) = (num c, num hh)"
      using gt by (simp add: cropSize_def div Let_def mul c(1))
    moreover have "\<bar>of_int c - of_int hh * r\<bar> \<le> 1" using lo' c(3) by (simp add: abs_le_iff)
    ultimately show ?thesis using c0 cW hh
      by (intro exI [of _ c] exI [of _ hh]) simp
  qed
qed

lemma visit_cases:
  "visit R integral1 integral2 w cropW cropH y x s = s \<or>
   (bestX (visit R integral1 integral2 w cropW cropH y x s) = x \<and>
    bestY (visit R integral1 integral2 w cropW cropH y x s) = y)"
  by (simp add: visit_def Let_def)

lemma stride_step:
  assumes "0 \<le> k" "4 * k \<le> B" "B < 2 ^ 32"
  shows "nadd ieee (num (4 * k)) stride = num (4 * (k + 1))"
proof -
  have "nadd ieee (num (4 * k)) stride = rnd64 (of_int (4 * (k + 1)))"
    by (simp add: num_def stride_def ieee_def algebra_simps)
  also have "\<dots> = Fin (of_int (4 * (k + 1)))"
    using assms by (intro rnd64_int) simp
  finally show ?thesis by (simp add: num_def)
qed

lemma nle_num [simp]: "nle (num a) (num b) \<longleftrightarrow> a \<le> b"
  by (simp add: num_def not_less)

lemma scanX_valid:
  assumes B: "nsub ieee w cropW = num B" "B < 2 ^ 32"
  shows "0 \<le> k \<Longrightarrow>
     \<exists>s'. scanX ieee integral1 integral2 w cropW cropH y (num (4 * k)) s = Some s' \<and>
       (s' = s \<or> (bestY s' = y \<and> (\<exists>j. bestX s' = num (4 * j) \<and> 0 \<le> j \<and> 4 * j \<le> B)))"
proof (induction "nat (B div 4 + 1 - k)" arbitrary: k s)
  case 0
  then have "\<not> 4 * k \<le> B" by linarith
  then show ?case by (subst scanX.simps) (simp add: B)
next
  case (Suc m)
  show ?case
  proof (cases "4 * k \<le> B")
    case True
    let ?s1 = "visit ieee integral1 integral2 w cropW cropH y (num (4 * k)) s"
    have unf: "scanX ieee integral1 integral2 w cropW cropH y (num (4 * k)) s =
               scanX ieee integral1 integral2 w cropW cropH y (num (4 * (k + 1))) ?s1"
      using True by (subst scanX.simps) (simp add: B stride_step [OF Suc.prems True B(2)])
    have "m = nat (B div 4 + 1 - (k + 1))" using Suc.hyps(2) by linarith
    from Suc.hyps(1) [OF this, of ?s1] Suc.prems
    obtain s' where s': "scanX ieee integral1 integral2 w cropW cropH y (num (4 * (k + 1))) ?s1 = Some s'"
      "s' = ?s1 \<or> (bestY s' = y \<and> (\<exists>j. bestX s' = num (4 * j) \<and> 0 \<le> j \<and> 4 * j \<le> B))"
      by auto
    have "s' = s \<or> (bestY s' = y \<and> (\<exists>j. bestX s' = num (4 * j) \<and> 0 \<le> j \<and> 4 * j \<le> B))"
      using s'(2) visit_cases [of ieee integral1 integral2 w cropW cropH y "num (4 * k)" s]
        True Suc.prems by auto
    then show ?thesis using s'(1) unf by simp
  next
    case False
    then show ?thesis by (subst scanX.simps) (simp add: B)
  qed
qed

lemma scanY_valid:
  assumes Bx: "nsub ieee w cropW = num Bx" "Bx < 2 ^ 32"
    and By: "nsub ieee h cropH = num By" "By < 2 ^ 32"
  shows "0 \<le> k \<Longrightarrow>
     \<exists>s'. scanY ieee integral1 integral2 w h cropW cropH (num (4 * k)) s = Some s' \<and>
       (s' = s \<or> (\<exists>i j. bestX s' = num (4 * j) \<and> 0 \<le> j \<and> 4 * j \<le> Bx \<and>
                          bestY s' = num (4 * i) \<and> 0 \<le> i \<and> 4 * i \<le> By))"
proof (induction "nat (By div 4 + 1 - k)" arbitrary: k s)
  case 0
  then have "\<not> 4 * k \<le> By" by linarith
  then show ?case by (subst scanY.simps) (simp add: By)
next
  case (Suc m)
  show ?case
  proof (cases "4 * k \<le> By")
    case True
    obtain s1 where s1:
      "scanX ieee integral1 integral2 w cropW cropH (num (4 * k)) (num (4 * 0)) s = Some s1"
      "s1 = s \<or> (bestY s1 = num (4 * k) \<and> (\<exists>j. bestX s1 = num (4 * j) \<and> 0 \<le> j \<and> 4 * j \<le> Bx))"
      using scanX_valid [OF Bx, of 0 integral1 integral2 cropH "num (4 * k)" s] by auto
    have s1': "scanX ieee integral1 integral2 w cropW cropH (num (4 * k)) (Fin 0) s = Some s1"
      using s1(1) by (simp add: num_def)
    have unf: "scanY ieee integral1 integral2 w h cropW cropH (num (4 * k)) s =
               scanY ieee integral1 integral2 w h cropW cropH (num (4 * (k + 1))) s1"
      using True
      by (subst scanY.simps) (simp add: By stride_step [OF Suc.prems True By(2)] s1')
    have "m = nat (By div 4 + 1 - (k + 1))" using Suc.hyps(2) by linarith
    from Suc.hyps(1) [OF this, of s1] Suc.prems
    obtain s' where s': "scanY ieee integral1 integral2 w h cropW cropH (num (4 * (k + 1))) s1 = Some s'"
      "s' = s1 \<or> (\<exists>i j. bestX s' = num (4 * j) \<and> 0 \<le> j \<and> 4 * j \<le> Bx \<and>
                          bestY s' = num (4 * i) \<and> 0 \<le> i \<and> 4 * i \<le> By)"
      by auto
    have "s' = s \<or> (\<exists>i j. bestX s' = num (4 * j) \<and> 0 \<le> j \<and> 4 * j \<le> Bx \<and>
                          bestY s' = num (4 * i) \<and> 0 \<le> i \<and> 4 * i \<le> By)"
      using s'(2) s1(2) True Suc.prems by auto
    then show ?thesis using s'(1) unf by simp
  next
    case False
    then show ?thesis by (subst scanY.simps) (simp add: By)
  qed
qed

lemma findCoBrightestROI_valid:
  assumes r: "0 < r" and clip: "0 \<le> clip"
    and W: "img_width img1 < 2 ^ 32" and H: "img_height img1 < 2 ^ 32"
  shows "\<exists>X Y cw ch :: int.
     findCoBrightestROI ieee img1 img2 (Fin r) (num clip) =
       Some \<lparr> rect_x = num X, rect_y = num Y, rect_w = num cw, rect_h = num ch \<rparr> \<and>
     0 \<le> X \<and> 4 dvd X \<and> X + cw \<le> int (img_width img1) \<and>
     0 \<le> Y \<and> 4 dvd Y \<and> Y + ch \<le> max 1 (int (img_height img1) - clip) \<and>
     0 \<le> cw \<and> 0 \<le> ch \<and>
     ((cw = int (img_width img1) \<and> \<bar>of_int ch - of_int (int (img_width img1)) / r\<bar> \<le> 1) \<or>
      (ch = max 1 (int (img_height img1) - clip) \<and>
       \<bar>of_int cw - of_int (max 1 (int (img_height img1) - clip)) * r\<bar> \<le> 1)) \<and>
     cropSize ieee (num (int (img_width img1))) (num (max 1 (int (img_height img1) - clip))) (Fin r) =
       (num cw, num ch)"
proof -
  define Wd where "Wd = int (img_width img1)"
  define hh where "hh = max 1 (int (img_height img1) - clip)"
  have Wd: "0 \<le> Wd" "Wd < 2 ^ 32" using W by (simp_all add: Wd_def)
  have hh: "1 \<le> hh" "hh < 2 ^ 32" using H clip by (simp_all add: hh_def)
  have eh: "effectiveHeight ieee img1 (num clip) = num hh"
    using effectiveHeight_valid [OF clip H] by (simp add: hh_def)
  obtain cw ch :: int where c: "cropSize ieee (num Wd) (num hh) (Fin r) = (num cw, num ch)"
     "0 \<le> cw" "cw \<le> Wd" "0 \<le> ch" "ch \<le> hh"
     "(cw = Wd \<and> \<bar>of_int ch - of_int Wd / r\<bar> \<le> 1) \<or>
      (ch = hh \<and> \<bar>of_int cw - of_int hh * r\<bar> \<le> 1)"
    using cropSize_valid [OF r Wd hh] by blast
  have Bx: "nsub ieee (num Wd) (num cw) = num (Wd - cw)" "Wd - cw < 2 ^ 32"
    using c Wd rnd64_int [of "Wd - cw"] by (simp_all add: num_def ieee_def)
  have By: "nsub ieee (num hh) (num ch) = num (hh - ch)" "hh - ch < 2 ^ 32"
    using c hh rnd64_int [of "hh - ch"] by (simp_all add: num_def ieee_def)
  let ?s0 = "\<lparr> maxBrightness = Fin (- 1), bestX = Fin 0, bestY = Fin 0 \<rparr>"
  let ?i1 = "computeIntegralImage ieee (img_data img1) (img_width img1) (img_height img1)"
  let ?i2 = "computeIntegralImage ieee (img_data img2) (img_width img1) (img_height img1)"
  obtain s' where s': "scanY ieee ?i1 ?i2 (num Wd) (num hh) (num cw) (num ch) (num (4 * 0)) ?s0 = Some s'"
    "s' = ?s0 \<or> (\<exists>i j. bestX s' = num (4 * j) \<and> 0 \<le> j \<and> 4 * j \<le> Wd - cw \<and>
                          bestY s' = num (4 * i) \<and> 0 \<le> i \<and> 4 * i \<le> hh - ch)"
    using scanY_valid [OF Bx By, of 0 ?i1 ?i2 ?s0] by auto
  then obtain X Y :: int where XY: "bestX s' = num X" "bestY s' = num Y"
      "0 \<le> X" "4 dvd X" "X \<le> Wd - cw" "0 \<le> Y" "4 dvd Y" "Y \<le> hh - ch"
  proof (cases "s' = ?s0")
    case True
    show ?thesis
      using True c by (intro that [of 0 0]) (simp_all add: num_def)
  next
    case False
    with s'(2) obtain i j where "bestX s' = num (4 * j)" "0 \<le> j" "4 * j \<le> Wd - cw"
        "bestY s' = num (4 * i)" "0 \<le> i" "4 * i \<le> hh - ch" by blast
    then show ?thesis by (intro that [of "4 * j" "4 * i"]) simp_all
  qed
  have "findCoBrightestROI ieee img1 img2 (Fin r) (num clip) =
      Some \<lparr> rect_x = num X, rect_y = num Y, rect_w = num cw, rect_h = num ch \<rparr>"
    using s'(1) XY(1,2) c(1) eh
    by (simp add: findCoBrightestROI_unfold Wd_def [symmetric] num_def)
  then show ?thesis
    using XY c unfolding Wd_def [symmetric] hh_def [symmetric]
    by (intro exI [of _ X] exI [of _ Y] exI [of _ cw] exI [of _ ch]) simp
qed

lemma rnd64_stall: "rnd64 (2 ^ 55 + 4) = Fin (2 ^ 55)"
  by code_simp

lemma counter_0: "counter (Fin 0)"
  unfolding counter_def by (intro exI [of _ 0]) (simp add: num_def)

lemma counter_step:
  assumes "counter x"
  shows "counter (nadd ieee x stride)"
proof -
  obtain k :: int where k: "x = num (4 * k)" "0 \<le> k" "k \<le> 2 ^ 53"
    using assms unfolding counter_def by blast
  have add: "nadd ieee x stride = rnd64 (of_int (4 * (k + 1)))"
    by (simp add: k num_def stride_def ieee_def algebra_simps)
  consider "k + 1 < 2 ^ 53" | "k + 1 = 2 ^ 53" | "k = 2 ^ 53" using k by linarith
  then show ?thesis
  proof cases
    case 1
    have q: "rat_of_int (4 * (k + 1)) = of_int (k + 1) * pow2 2" by (simp add: pow2_def)
    have "\<bar>rat_of_int (4 * (k + 1))\<bar> < of_int (2 ^ 55)"
      using 1 k by (simp only: of_int_less_iff flip: of_int_abs) simp
    also have "\<dots> < pow2 (1023 + 1)" by (simp add: pow2_def)
    finally have "rnd64 (of_int (4 * (k + 1))) = Fin (of_int (4 * (k + 1)))"
      unfolding rnd64_def using 1 k by (intro round_to_exact [OF q]) auto
    then show ?thesis
      unfolding counter_def add using 1 k by (intro exI [of _ "k + 1"]) (simp add: num_def)
  next
    case 2
    have q: "rat_of_int (4 * (k + 1)) = of_int 1 * pow2 55" using 2 by (simp add: pow2_def)
    have "\<bar>rat_of_int (4 * (k + 1))\<bar> < pow2 (1023 + 1)" using 2 by (simp add: pow2_def)
    then have "rnd64 (of_int (4 * (k + 1))) = Fin (of_int (4 * (k + 1)))"
      unfolding rnd64_def by (intro round_to_exact [OF q]) auto
    then show ?thesis
      unfolding counter_def add using 2 k by (intro exI [of _ "k + 1"]) (simp add: num_def)
  next
    case 3
    then have "rnd64 (of_int (4 * (k + 1))) = Fin (of_int (4 * k))"
      using rnd64_stall by simp
    then show ?thesis
      unfolding counter_def add using 3 by (intro exI [of _ k]) (simp add: num_def)
  qed
qed

lemma corner_visit:
  assumes "corner s" "counter x" "counter y"
  shows "corner (visit R integral1 integral2 w cropW cropH y x s)"
  using assms visit_cases [of R integral1 integral2 w cropW cropH y x s]
  unfolding corner_def counter_def by (metis) 

lemmas scanX_induct = scanX.raw_induct [where xa = "((((((((R, integral1), integral2), w), cropW), cropH), y), x), s)", simplified] for R integral1 integral2 w cropW cropH y x s

lemma scanX_corner:
  "scanX R integral1 integral2 w cropW cropH y x s = Some s' \<Longrightarrow>
     R = ieee \<longrightarrow> counter x \<longrightarrow> counter y \<longrightarrow> corner s \<longrightarrow> corner s'"
proof (rule scanX_induct [where P = "\<lambda>R integral1 integral2 w cropW cropH y x s s'. R = ieee \<longrightarrow> counter x \<longrightarrow> counter y \<longrightarrow> corner s \<longrightarrow> corner s'"], goal_cases)
  case (1 f R integral1 integral2 w cropW cropH y x s s')
  show ?case
  proof (intro impI)
    assume R: "R = ieee" and x: "counter x" and y: "counter y" and s: "corner s"
    show "corner s'"
    proof (cases "nle x (nsub R w cropW)")
      case True
      then have "f R integral1 integral2 w cropW cropH y (nadd R x stride)
            (visit R integral1 integral2 w cropW cropH y x s) = Some s'"
        using 1(3) by simp
      from 1(2) [OF this] show ?thesis
        using R counter_step [OF x] y corner_visit [OF s x y] by simp
    next
      case False
      then show ?thesis using 1(3) s by simp
    qed
  qed
qed

lemma scanY_corner:
  "scanY R integral1 integral2 w h cropW cropH y s = Some s' \<Longrightarrow>
     R = ieee \<longrightarrow> counter y \<longrightarrow> corner s \<longrightarrow> corner s'"
proof (rule scanY.raw_induct [where P = "\<lambda>R integral1 integral2 w h cropW cropH y s s'. R = ieee \<longrightarrow> counter y \<longrightarrow> corner s \<longrightarrow> corner s'"], goal_cases)
  case (1 f R integral1 integral2 w h cropW cropH y s s')
  show ?case
  proof (intro impI)
    assume R: "R = ieee" and y: "counter y" and s: "corner s"
    show "corner s'"
    proof (cases "nle y (nsub R h cropH)")
      case True
      then obtain s1 where s1: "scanX R integral1 integral2 w cropW cropH y (Fin 0) s = Some s1"
          "f R integral1 integral2 w h cropW cropH (nadd R y stride) s1 = Some s'"
        using 1(3) by (auto simp: bind_eq_Some_conv)
      have "corner s1" using scanX_corner [OF s1(1)] R counter_0 y s by simp
      with 1(2) [OF s1(2)] show ?thesis
        using R counter_step [OF y] by simp
    next
      case False
      then show ?thesis using 1(3) s by simp
    qed
  qed
qed

lemma findCoBrightestROI_corner:
  assumes "findCoBrightestROI ieee img1 img2 targetAspectRatio clip = Some roi"
  shows "\<exists>i j :: int. rect_x roi = num (4 * i) \<and> 0 \<le> i \<and> rect_y roi = num (4 * j) \<and> 0 \<le> j"
proof -
  let ?s0 = "\<lparr> maxBrightness = Fin (- 1), bestX = Fin 0, bestY = Fin 0 \<rparr>"
  have s0: "corner ?s0"
    unfolding corner_def by (intro exI [of _ 0]) (simp add: num_def)
  obtain cropW cropH where c: "cropSize ieee (num (int (img_width img1)))
      (effectiveHeight ieee img1 clip) targetAspectRatio = (cropW, cropH)"
    by (cases "cropSize ieee (num (int (img_width img1)))
      (effectiveHeight ieee img1 clip) targetAspectRatio")
  from assms obtain s where s: "scanY ieee
       (computeIntegralImage ieee (img_data img1) (img_width img1) (img_height img1))
       (computeIntegralImage ieee (img_data img2) (img_width img1) (img_height img1))
       (num (int (img_width img1))) (effectiveHeight ieee img1 clip) cropW cropH (Fin 0) ?s0 = Some s"
     and roi: "roi = \<lparr> rect_x = bestX s, rect_y = bestY s, rect_w = cropW, rect_h = cropH \<rparr>"
    by (auto simp: findCoBrightestROI_unfold c bind_eq_Some_conv)
  have "corner s" using scanY_corner [OF s] counter_0 s0 by simp
  then show ?thesis by (simp add: roi corner_def)
qed

section \<open>The brightness adjustment and the merge\<close>

lemma toUint8Clamp_range: "0 \<le> toUint8Clamp v \<and> toUint8Clamp v \<le> 255"
proof (cases v)
  case (Fin q)
  show ?thesis
  proof (cases "0 < q \<and> q < 255")
    case True
    then have "0 \<le> \<lfloor>q\<rfloor>" "\<lfloor>q\<rfloor> < 255" by (simp_all add: floor_less_iff)
    then have "0 \<le> round_half_even q \<and> round_half_even q \<le> 255"
      using round_half_even_bounds [of q] by linarith
    then show ?thesis
      using True Fin by (simp add: toUint8Clamp_def)
  next
    case False
    then show ?thesis using Fin by (auto simp: toUint8Clamp_def)
  qed
qed (simp_all add: toUint8Clamp_def)

lemma toUint8Clamp_byte: "0 \<le> b \<Longrightarrow> b \<le> 255 \<Longrightarrow> toUint8Clamp (num b) = b"
  by (auto simp: toUint8Clamp_def num_def)

lemma length_applyScale [simp]: "length (applyScale R scale i data) = length data"
  by (induction R scale i data rule: applyScale.induct)
     (subst applyScale.simps, simp add: Let_def)

lemma applyScale_before:
  "j < i \<Longrightarrow> applyScale R scale i data ! j = data ! j"
  by (induction R scale i data rule: applyScale.induct)
     (subst applyScale.simps, simp add: Let_def)

lemma applyScale_range:
  "i mod 4 = 0 \<Longrightarrow> i \<le> j \<Longrightarrow> j < length data \<Longrightarrow> j mod 4 \<noteq> 3 \<Longrightarrow>
     0 \<le> applyScale R scale i data ! j \<and> applyScale R scale i data ! j \<le> 255"
proof (induction R scale i data rule: applyScale.induct)
  case (1 R scale i data)
  define data' where "data' =
    data[i := toUint8Clamp (nmin (Fin 255) (nmul R (u8_get data i) scale)),
         i + 1 := toUint8Clamp (nmin (Fin 255) (nmul R (u8_get data (i + 1)) scale)),
         i + 2 := toUint8Clamp (nmin (Fin 255) (nmul R (u8_get data (i + 2)) scale))]"
  have step: "applyScale R scale i data = applyScale R scale (i + 4) data'"
    using "1.prems" by (subst applyScale.simps) (simp add: Let_def data'_def)
  show ?case
  proof (cases "j < i + 4")
    case True
    then have "j = i \<or> j = i + 1 \<or> j = i + 2" using "1.prems" by presburger
    then have "0 \<le> data' ! j \<and> data' ! j \<le> 255"
      using "1.prems" toUint8Clamp_range by (auto simp: data'_def nth_list_update)
    then show ?thesis using True by (simp add: step applyScale_before)
  next
    case False
    have "0 \<le> applyScale R scale (i + 4) data' ! j \<and> applyScale R scale (i + 4) data' ! j \<le> 255"
      using "1.prems" False
      by (intro "1.IH" [OF _ refl refl refl refl refl refl, folded data'_def])
         (auto simp: data'_def)
    then show ?thesis by (simp add: step)
  qed
qed

lemma ngt_Fin_cases: "ngt v (Fin m) \<Longrightarrow> v = PInf \<or> (\<exists>a. v = Fin a \<and> m < a)"
  by (cases v) auto

lemma max3_u8_not_inf: "max3 (u8_get d i) (u8_get d j) (u8_get d k) \<noteq> PInf"
  by (auto simp: max3_def u8_get_def to_number_def u8_read_def num_def)

lemma maxIntensity_floor:
  "mx = Fin m \<Longrightarrow> \<exists>m'. maxIntensity data i mx = Fin m' \<and> m \<le> m'"
proof (induction data i mx arbitrary: m rule: maxIntensity.induct)
  case (1 data i mx)
  show ?case
  proof (cases "i < length data")
    case True
    let ?val = "max3 (u8_get data i) (u8_get data (i + 1)) (u8_get data (i + 2))"
    let ?mx = "if ngt ?val mx then ?val else mx"
    have step: "maxIntensity data i mx = maxIntensity data (i + 4) ?mx"
      using True by (subst maxIntensity.simps) (simp add: Let_def)
    have "\<exists>a. ?mx = Fin a \<and> m \<le> a"
    proof (cases "ngt ?val mx")
      case True
      then obtain a where "?val = Fin a" "m < a"
        using ngt_Fin_cases [of ?val m] max3_u8_not_inf [of data i "i + 1" "i + 2"] "1.prems"
        by auto
      then show ?thesis using True by auto
    next
      case False
      then show ?thesis using "1.prems" by simp
    qed
    then obtain a where a: "?mx = Fin a" "m \<le> a" by blast
    from "1.IH" [OF True refl a(1)]
    obtain m' where "maxIntensity data (i + 4) ?mx = Fin m'" "a \<le> m'"
      by blast
    then show ?thesis using a step by auto
  next
    case False
    then show ?thesis using "1.prems" by (subst maxIntensity.simps) simp
  qed
qed

lemma length_mergeChannels [simp]: "length (mergeChannels R d1 d2 i mData) = length mData"
  by (induction R d1 d2 i mData rule: mergeChannels.induct)
     (subst mergeChannels.simps, simp add: Let_def)

lemma mergeChannels_before:
  "j < i \<Longrightarrow> mergeChannels R d1 d2 i mData ! j = mData ! j"
  by (induction R d1 d2 i mData rule: mergeChannels.induct)
     (subst mergeChannels.simps, simp add: Let_def)

lemma byte_sum_clamped:
  assumes "0 \<le> a" "a \<le> 255" "0 \<le> b" "b \<le> 255"
  shows "toUint8Clamp (nmin (Fin 255) (nadd ieee (num a) (num b))) = min 255 (a + b)"
proof -
  have "nadd ieee (num a) (num b) = rnd64 (of_int (a + b))"
    by (simp add: num_def ieee_def)
  also have "\<dots> = Fin (of_int (a + b))" using assms by (intro rnd64_int) simp
  finally have "nmin (Fin 255) (nadd ieee (num a) (num b)) = num (min 255 (a + b))"
    by (simp add: num_def min_def)
  then show ?thesis using assms by (simp add: toUint8Clamp_byte)
qed

lemma mergeChannels_step:
  assumes "i + 3 < length mData" "i + 3 < length d1" "i + 3 < length d2"
    and "\<forall>b \<in> set d1 \<union> set d2. 0 \<le> b \<and> b \<le> 255"
  shows "mergeChannels ieee d1 d2 i mData =
         mergeChannels ieee d1 d2 (i + 4) (mergeStep d1 d2 i mData)"
proof -
  have b1: "0 \<le> d1 ! j \<and> d1 ! j \<le> 255" if "j < length d1" for j
    using assms(4) that by (simp add: nth_mem)
  have b2: "0 \<le> d2 ! j \<and> d2 ! j \<le> 255" if "j < length d2" for j
    using assms(4) that by (simp add: nth_mem)
  show ?thesis
    using assms(1-3) b1 b2
    by (subst mergeChannels.simps)
       (simp add: Let_def mergeStep_def u8_read_def u8_get_def to_number_def byte_sum_clamped
          toUint8Clamp_byte)
qed

lemma mergeChannels_pixel:
  assumes "length d1 = 4 * n" "length d2 = 4 * n"
    and "\<forall>b \<in> set d1 \<union> set d2. 0 \<le> b \<and> b \<le> 255"
    and "p < n"
  shows "length mData = 4 * n \<Longrightarrow> k \<le> p \<Longrightarrow>
         pixel (mergeChannels ieee d1 d2 (4 * k) mData) p =
         spec_mergePixel (pixel d1 p) (pixel d2 p)"
proof (induction "p - k" arbitrary: k mData)
  case 0
  then have k: "k = p" by simp
  have i: "4 * p + 3 < 4 * n" using assms(4) by simp
  have "mergeChannels ieee d1 d2 (4 * p) mData =
        mergeChannels ieee d1 d2 (4 * p + 4) (mergeStep d1 d2 (4 * p) mData)"
    using i assms(1-3) "0.prems" by (intro mergeChannels_step) simp_all
  then have "pixel (mergeChannels ieee d1 d2 (4 * p) mData) p =
             pixel (mergeStep d1 d2 (4 * p) mData) p"
    by (simp add: pixel_def mergeChannels_before)
  also have "\<dots> = spec_mergePixel (pixel d1 p) (pixel d2 p)"
    using i "0.prems"
    by (auto simp: pixel_def spec_mergePixel_def mergeStep_def nth_list_update)
  finally show ?case by (simp add: k)
next
  case (Suc m)
  then have k: "k < p" by simp
  then have i: "4 * k + 3 < 4 * n" using assms(4) by simp
  have "mergeChannels ieee d1 d2 (4 * k) mData =
        mergeChannels ieee d1 d2 (4 * (k + 1)) (mergeStep d1 d2 (4 * k) mData)"
    using i assms(1-3) Suc.prems mergeChannels_step [of "4 * k" mData d1 d2]
    by (simp add: add.commute)
  moreover have "pixel (mergeChannels ieee d1 d2 (4 * (k + 1)) (mergeStep d1 d2 (4 * k) mData)) p =
         spec_mergePixel (pixel d1 p) (pixel d2 p)"
    using Suc.hyps(2) Suc.prems k by (intro Suc.hyps(1)) (auto simp: mergeStep_def)
  ultimately show ?case by simp
qed

section \<open>The row pipeline returns\<close>

lemma truncate_number_int [simp]: "truncate_number (of_int n) = n"
  by (simp add: truncate_number_def)

lemma toLong_num: "- (2 ^ 31) \<le> n \<Longrightarrow> n < 2 ^ 31 \<Longrightarrow> toLong (num n) = Inr n"
  by (simp add: toLong_def num_def)

lemma imageDataSize_valid:
  assumes "0 < tw" "tw < 2 ^ 31" "0 < th" "th < 2 ^ 31"
  shows "imageDataSize (num tw) (num th) = Inr (nat tw * nat th)"
  using assms by (simp add: imageDataSize_def toLong_num)

lemma canvasSize_num: "0 \<le> n \<Longrightarrow> n < 2 ^ 31 \<Longrightarrow> canvasSize dflt (num n) = n"
  by (simp add: canvasSize_def toUint32_def num_def)

lemma ratio_valid:
  assumes "0 < tw" "tw < 2 ^ 32" "0 < th" "th < 2 ^ 32"
  shows "\<exists>r. ndiv ieee (num tw) (num th) = Fin r \<and> 0 < r \<and>
           (\<forall>n::int. tw \<le> n * th \<longrightarrow> \<bar>n\<bar> \<le> 2 ^ 53 \<longrightarrow> r \<le> of_int n)"
proof -
  let ?q = "rat_of_int tw / rat_of_int th"
  have div: "ndiv ieee (num tw) (num th) = rnd64 ?q"
    using assms by (simp add: num_def ieee_def)
  have lo: "pow2 (- 32) \<le> ?q"
  proof -
    have "rat_of_int th \<le> rat_of_int (2 ^ 32)" using assms(4) by simp
    then have "pow2 (- 32) * rat_of_int th \<le> 1" by (simp add: pow2_def)
    also have "1 \<le> rat_of_int tw" using assms(1) by simp
    finally show ?thesis using assms(3) by (simp add: pos_le_divide_eq)
  qed
  have "rnd64 (pow2 (- 32)) = Fin (pow2 (- 32))"
  proof -
    have q: "pow2 (- 32) = of_int 1 * pow2 (- 32)" by simp
    have "\<bar>pow2 (- 32)\<bar> < pow2 (1023 + 1)"
      using pow2_pos [of "- 32"] by (simp add: pow2_less_iff)
    then show ?thesis unfolding rnd64_def by (intro round_to_exact [OF q]) auto
  qed
  with rnd64_mono [OF lo] have 1: "nle (Fin (pow2 (- 32))) (rnd64 ?q)" by simp
  have "?q \<le> of_int tw" using assms by (simp add: pos_divide_le_eq mult_le_cancel_left1)
  from rnd64_mono [OF this] have 2: "nle (rnd64 ?q) (Fin (of_int tw))"
    using rnd64_int [of tw] assms by simp
  have up: "nle (rnd64 ?q) (Fin (of_int n))" if "tw \<le> n * th" "\<bar>n\<bar> \<le> 2 ^ 53" for n :: int
  proof -
    have "rat_of_int tw \<le> of_int (n * th)" using that(1) by (simp only: of_int_le_iff)
    then have "?q \<le> of_int n" using assms(3) by (simp add: pos_divide_le_eq)
    from rnd64_mono [OF this] show ?thesis using rnd64_int [OF that(2)] by simp
  qed
  show ?thesis
  proof (cases "rnd64 ?q")
    case (Fin v)
    have "v \<le> of_int n" if "tw \<le> n * th" "\<bar>n\<bar> \<le> 2 ^ 53" for n :: int
      using up [OF that] by (simp add: Fin)
    then show ?thesis using Fin 1 pow2_pos [of "- 32"] by (simp add: div)
  next
    case PInf
    then show ?thesis using 2 by simp
  next
    case NInf
    then show ?thesis using 1 by simp
  next
    case NaN
    then show ?thesis by (simp add: rnd64_def)
  qed
qed

lemma processRow_returns:
  assumes "targetWidth config = num tw" "0 < tw" "tw < 2 ^ 31"
    and "targetHeight config = num th" "0 < th" "th < 2 ^ 31"
    and "findCoBrightestROI R img1 img2 (ndiv R (num tw) (num th)) (clipBottom config) = Some roi"
  shows "\<exists>row. processRow R draw readBack random1 random2 img1 img2 config = Some (Inr row) \<and>
           row_roi row = roi \<and>
           row_c1 row = readBack (adjustBrightness R config random1 (draw img1 roi (num tw) (num th))) \<and>
           row_c2 row = readBack (adjustBrightness R config random2 (draw img2 roi (num tw) (num th))) \<and>
           row_merged row =
             mergeChannels R (row_c1 row) (row_c2 row) 0 (replicate (4 * (nat tw * nat th)) 0) \<and>
           row_height row = th"
  using assms imageDataSize_valid [OF assms(2,3,5,6)] canvasSize_num [of th 150]
  by (simp add: processRow_def processChannel_def Let_def)

lemma cropSize_height_one:
  assumes "0 < r" "r \<le> of_int W"
  shows "snd (cropSize ieee (num W) (Fin 1) (Fin r)) = Fin 1"
proof -
  let ?q = "rat_of_int W / r"
  have "1 \<le> ?q" using assms by (simp add: pos_le_divide_eq)
  from rnd64_mono [OF this] have 1: "nle (Fin 1) (rnd64 ?q)"
    using rnd64_int [of 1] by simp
  have div: "ndiv ieee (num W) (Fin r) = rnd64 ?q" using assms by (simp add: num_def ieee_def)
  show ?thesis
  proof (cases "rnd64 ?q")
    case (Fin v)
    define k where "k = \<lfloor>v\<rfloor>"
    have "1 \<le> v" using 1 by (simp add: Fin)
    then have k: "1 \<le> k" by (simp add: k_def)
    have fl: "nfloor (ndiv ieee (num W) (Fin r)) = Fin (of_int k)"
      by (simp add: div Fin k_def)
    show ?thesis
    proof (cases "1 < k")
      case True
      then show ?thesis unfolding cropSize_def fl by (simp add: Let_def)
    next
      case False
      then have "k = 1" using k by simp
      then show ?thesis unfolding cropSize_def fl by (simp add: Let_def)
    qed
  next
    case PInf
    then show ?thesis by (simp add: cropSize_def div Let_def)
  next
    case NInf
    then show ?thesis using 1 by simp
  next
    case NaN
    then show ?thesis by (simp add: rnd64_def)
  qed
qed

lemma processRow_valid:
  assumes tw: "targetWidth config = num tw" "0 < tw" "tw < 2 ^ 31"
    and th: "targetHeight config = num th" "0 < th" "th < 2 ^ 31"
    and clip: "clipBottom config = num clip" "0 \<le> clip"
    and W: "img_width img1 < 2 ^ 32" and H: "img_height img1 < 2 ^ 32"
  shows "\<exists>row r X Y cw ch.
           ndiv ieee (targetWidth config) (targetHeight config) = Fin r \<and> 0 < r \<and>
           (\<forall>n::int. tw \<le> n * th \<longrightarrow> \<bar>n\<bar> \<le> 2 ^ 53 \<longrightarrow> r \<le> of_int n) \<and>
           findCoBrightestROI ieee img1 img2 (Fin r) (num clip) = Some (row_roi row) \<and>
           processRow ieee draw readBack random1 random2 img1 img2 config = Some (Inr row) \<and>
           row_roi row = \<lparr> rect_x = num X, rect_y = num Y, rect_w = num cw, rect_h = num ch \<rparr> \<and>
           0 \<le> X \<and> 4 dvd X \<and> X + cw \<le> int (img_width img1) \<and>
           0 \<le> Y \<and> 4 dvd Y \<and> Y + ch \<le> max 1 (int (img_height img1) - clip) \<and>
           0 \<le> cw \<and> 0 \<le> ch \<and>
           cropSize ieee (num (int (img_width img1))) (num (max 1 (int (img_height img1) - clip)))
             (Fin r) = (num cw, num ch) \<and>
           length (row_merged row) = 4 * (nat tw * nat th) \<and> row_height row = th"
proof -
  have tw32: "tw < 2 ^ 32" and th32: "th < 2 ^ 32" using tw(3) th(3) by simp_all
  obtain r where r: "ndiv ieee (num tw) (num th) = Fin r" "0 < r"
      "\<forall>n::int. tw \<le> n * th \<longrightarrow> \<bar>n\<bar> \<le> 2 ^ 53 \<longrightarrow> r \<le> of_int n"
    using ratio_valid [OF tw(2) tw32 th(2) th32] by blast
  obtain X Y cw ch :: int where roi: "findCoBrightestROI ieee img1 img2 (Fin r) (num clip) =
       Some \<lparr> rect_x = num X, rect_y = num Y, rect_w = num cw, rect_h = num ch \<rparr>"
     "0 \<le> X" "4 dvd X" "X + cw \<le> int (img_width img1)"
     "0 \<le> Y" "4 dvd Y" "Y + ch \<le> max 1 (int (img_height img1) - clip)" "0 \<le> cw" "0 \<le> ch"
     "cropSize ieee (num (int (img_width img1))) (num (max 1 (int (img_height img1) - clip)))
             (Fin r) = (num cw, num ch)"
    using findCoBrightestROI_valid [OF r(2) clip(2) W H, of img2] by blast
  let ?roi = "\<lparr> rect_x = num X, rect_y = num Y, rect_w = num cw, rect_h = num ch \<rparr>"
  have "findCoBrightestROI ieee img1 img2 (ndiv ieee (num tw) (num th)) (clipBottom config) =
      Some ?roi"
    using roi(1) by (simp add: r(1) clip(1))
  from processRow_returns [OF tw th this, of draw readBack random1 random2]
  obtain row where row: "processRow ieee draw readBack random1 random2 img1 img2 config = Some (Inr row)"
     "row_roi row = ?roi"
     "row_merged row =
        mergeChannels ieee (row_c1 row) (row_c2 row) 0 (replicate (4 * (nat tw * nat th)) 0)"
     "row_height row = th"
    by blast
  have len: "length (row_merged row) = 4 * (nat tw * nat th)" by (simp add: row(3))
  show ?thesis
    using r roi row(1,2,4) len
    by (intro exI [of _ row] exI [of _ r] exI [of _ X] exI [of _ Y] exI [of _ cw] exI [of _ ch])
       (simp add: tw(1) th(1))
qed

section \<open>The rectangle\<close>

text \<open>
  C4. For a positive aspect ratio and an integer clipped height \<open>clipBottom \<ge> 0\<close>,
  \<^verbatim>\<open>findCoBrightestROI\<close> returns a rectangle with \<open>x \<ge> 0\<close>, \<open>y \<ge> 0\<close>, \<open>x + w\<close> at most the
  width of the image and \<open>y + h\<close> at most \<open>max(1, height - clipBottom)\<close>. The dimensions of an
  \<^verbatim>\<open>ImageData\<close> are below \<open>2 ^ 32\<close>.
\<close>

theorem roi_within_bounds:
  assumes "0 < r" "0 \<le> clip" "img_width img1 < 2 ^ 32" "img_height img1 < 2 ^ 32"
  shows "\<exists>x y w h :: rat.
     findCoBrightestROI ieee img1 img2 (Fin r) (num clip) =
       Some \<lparr> rect_x = Fin x, rect_y = Fin y, rect_w = Fin w, rect_h = Fin h \<rparr> \<and>
     0 \<le> x \<and> 0 \<le> y \<and> x + w \<le> of_nat (img_width img1) \<and>
     y + h \<le> max 1 (of_nat (img_height img1) - of_int clip)"
proof -
  obtain X Y cw ch :: int where roi: "findCoBrightestROI ieee img1 img2 (Fin r) (num clip) =
       Some \<lparr> rect_x = num X, rect_y = num Y, rect_w = num cw, rect_h = num ch \<rparr>"
     "0 \<le> X" "X + cw \<le> int (img_width img1)"
     "0 \<le> Y" "Y + ch \<le> max 1 (int (img_height img1) - clip)"
    using findCoBrightestROI_valid [OF assms, of img2] by blast
  have "rat_of_int (X + cw) \<le> of_int (int (img_width img1))"
    using roi(3) by (simp only: of_int_le_iff)
  moreover have "rat_of_int (Y + ch) \<le> of_int (max 1 (int (img_height img1) - clip))"
    using roi(5) by (simp only: of_int_le_iff)
  ultimately show ?thesis
    using roi(1,2,4)
    by (intro exI [of _ "of_int X"] exI [of _ "of_int Y"] exI [of _ "of_int cw"]
          exI [of _ "of_int ch"]) (simp add: num_def max_def split: if_splits)
qed

theorem roi_within_bounds_witness:
  "(0::rat) < 4 \<and> (0::int) \<le> 0 \<and>
   (\<exists>x y w h :: rat.
     findCoBrightestROI ieee
       \<lparr> img_data = [0, 0, 0, 255, 0, 0, 0, 255, 0, 0, 0, 255, 0, 0, 0, 255,
                       9, 9, 9, 255, 9, 9, 9, 255, 9, 9, 9, 255, 9, 9, 9, 255],
         img_width = 8, img_height = 1 \<rparr>
       \<lparr> img_data = [0, 0, 0, 255, 0, 0, 0, 255, 0, 0, 0, 255, 0, 0, 0, 255,
                       9, 9, 9, 255, 9, 9, 9, 255, 9, 9, 9, 255, 9, 9, 9, 255],
         img_width = 8, img_height = 1 \<rparr> (Fin 4) (num 0) =
       Some \<lparr> rect_x = Fin x, rect_y = Fin y, rect_w = Fin w, rect_h = Fin h \<rparr> \<and>
     0 \<le> x \<and> 0 \<le> y \<and> x + w \<le> 8 \<and> y + h \<le> 1)"
  using roi_within_bounds [of 4 0
       "\<lparr> img_data = [0, 0, 0, 255, 0, 0, 0, 255, 0, 0, 0, 255, 0, 0, 0, 255,
                       9, 9, 9, 255, 9, 9, 9, 255, 9, 9, 9, 255, 9, 9, 9, 255],
         img_width = 8, img_height = 1 \<rparr>"
       "\<lparr> img_data = [0, 0, 0, 255, 0, 0, 0, 255, 0, 0, 0, 255, 0, 0, 0, 255,
                       9, 9, 9, 255, 9, 9, 9, 255, 9, 9, 9, 255, 9, 9, 9, 255],
         img_width = 8, img_height = 1 \<rparr>"]
  by simp

text \<open>
  C10. Whenever \<^verbatim>\<open>findCoBrightestROI\<close> returns, on any input, the \<open>x\<close> and \<open>y\<close> of the
  rectangle are multiples of 4: the counters of the scan start at 0 and advance by the
  stride 4, and the position when no corner is visited is \<open>(0, 0)\<close>. It does return for a
  positive aspect ratio and an integer \<open>clipBottom \<ge> 0\<close>.
\<close>

theorem roi_corner_multiple_of_stride:
  "(\<forall>roi. findCoBrightestROI ieee img1 img2 targetAspectRatio clip = Some roi \<longrightarrow>
      (\<exists>i j :: int. rect_x roi = num (4 * i) \<and> 0 \<le> i \<and> rect_y roi = num (4 * j) \<and> 0 \<le> j)) \<and>
   ((\<exists>r. targetAspectRatio = Fin r \<and> 0 < r) \<and> (\<exists>c. clip = num c \<and> 0 \<le> c) \<and>
      img_width img1 < 2 ^ 32 \<and> img_height img1 < 2 ^ 32 \<longrightarrow>
      findCoBrightestROI ieee img1 img2 targetAspectRatio clip \<noteq> None)"
proof (intro conjI allI impI)
  fix roi
  assume "findCoBrightestROI ieee img1 img2 targetAspectRatio clip = Some roi"
  then show "\<exists>i j :: int. rect_x roi = num (4 * i) \<and> 0 \<le> i \<and> rect_y roi = num (4 * j) \<and> 0 \<le> j"
    by (rule findCoBrightestROI_corner)
next
  assume a: "(\<exists>r. targetAspectRatio = Fin r \<and> 0 < r) \<and> (\<exists>c. clip = num c \<and> 0 \<le> c) \<and>
      img_width img1 < 2 ^ 32 \<and> img_height img1 < 2 ^ 32"
  then obtain r c where r: "targetAspectRatio = Fin r" "0 < r" and c: "clip = num c" "0 \<le> c"
    by blast
  show "findCoBrightestROI ieee img1 img2 targetAspectRatio clip \<noteq> None"
    using findCoBrightestROI_valid [OF r(2) c(2), of img1 img2] a r(1) c(1) by auto
qed

theorem roi_corner_multiple_of_stride_witness:
  "\<exists>roi. findCoBrightestROI ieee
       \<lparr> img_data = [0, 0, 0, 255, 0, 0, 0, 255, 0, 0, 0, 255, 0, 0, 0, 255,
                       9, 9, 9, 255, 9, 9, 9, 255, 9, 9, 9, 255, 9, 9, 9, 255],
         img_width = 8, img_height = 1 \<rparr>
       \<lparr> img_data = [0, 0, 0, 255, 0, 0, 0, 255, 0, 0, 0, 255, 0, 0, 0, 255,
                       9, 9, 9, 255, 9, 9, 9, 255, 9, 9, 9, 255, 9, 9, 9, 255],
         img_width = 8, img_height = 1 \<rparr> (Fin 4) (num 0) = Some roi \<and>
     (\<exists>i j :: int. rect_x roi = num (4 * i) \<and> 0 \<le> i \<and> rect_y roi = num (4 * j) \<and> 0 \<le> j)"
  using roi_corner_multiple_of_stride [of
       "\<lparr> img_data = [0, 0, 0, 255, 0, 0, 0, 255, 0, 0, 0, 255, 0, 0, 0, 255,
                       9, 9, 9, 255, 9, 9, 9, 255, 9, 9, 9, 255, 9, 9, 9, 255],
         img_width = 8, img_height = 1 \<rparr>"
       "\<lparr> img_data = [0, 0, 0, 255, 0, 0, 0, 255, 0, 0, 0, 255, 0, 0, 0, 255,
                       9, 9, 9, 255, 9, 9, 9, 255, 9, 9, 9, 255, 9, 9, 9, 255],
         img_width = 8, img_height = 1 \<rparr>" "Fin 4" "num 0"]
  by auto

text \<open>
  C8. The claim bounds \<open>\<bar>w - h * r\<bar>\<close> by one pixel. On an image 6 wide and 1 high with
  \<open>r = 4\<close> the rectangle is 6 by 1, and \<open>\<bar>6 - 1 * 4\<bar> = 2\<close>.
\<close>

theorem crop_ratio_counterexample:
  "map_option rect_w (findCoBrightestROI ieee
      \<lparr> img_data = [9, 9, 9, 255, 9, 9, 9, 255, 9, 9, 9, 255, 9, 9, 9, 255, 9, 9, 9, 255,
                     9, 9, 9, 255], img_width = 6, img_height = 1 \<rparr>
      \<lparr> img_data = [9, 9, 9, 255, 9, 9, 9, 255, 9, 9, 9, 255, 9, 9, 9, 255, 9, 9, 9, 255,
                     9, 9, 9, 255], img_width = 6, img_height = 1 \<rparr> (Fin 4) (num 0)) = Some (Fin 6) \<and>
   map_option rect_h (findCoBrightestROI ieee
      \<lparr> img_data = [9, 9, 9, 255, 9, 9, 9, 255, 9, 9, 9, 255, 9, 9, 9, 255, 9, 9, 9, 255,
                     9, 9, 9, 255], img_width = 6, img_height = 1 \<rparr>
      \<lparr> img_data = [9, 9, 9, 255, 9, 9, 9, 255, 9, 9, 9, 255, 9, 9, 9, 255, 9, 9, 9, 255,
                     9, 9, 9, 255], img_width = 6, img_height = 1 \<rparr> (Fin 4) (num 0)) = Some (Fin 1) \<and>
   \<not> \<bar>(6::rat) - 1 * 4\<bar> \<le> 1"
proof -
  have q: "(3 / 2 :: rat) = of_int 3 * pow2 (- 1)" by (simp add: pow2_def)
  have "rnd64 (3 / 2) = Fin (3 / 2)"
    unfolding rnd64_def by (rule round_to_exact [OF q]) (simp_all add: pow2_def)
  moreover have "\<lfloor>3 / 2 :: rat\<rfloor> = 1" by (rule floor_unique) simp_all
  ultimately have c: "cropSize ieee (num 6) (num 1) (Fin 4) = (num 6, num 1)"
    by (simp add: cropSize_def num_def ieee_def Let_def)
  obtain X Y cw ch :: int where "findCoBrightestROI ieee
      \<lparr> img_data = [9, 9, 9, 255, 9, 9, 9, 255, 9, 9, 9, 255, 9, 9, 9, 255, 9, 9, 9, 255,
                     9, 9, 9, 255], img_width = 6, img_height = 1 \<rparr>
      \<lparr> img_data = [9, 9, 9, 255, 9, 9, 9, 255, 9, 9, 9, 255, 9, 9, 9, 255, 9, 9, 9, 255,
                     9, 9, 9, 255], img_width = 6, img_height = 1 \<rparr> (Fin 4) (num 0) =
       Some \<lparr> rect_x = num X, rect_y = num Y, rect_w = num cw, rect_h = num ch \<rparr>"
     "cropSize ieee (num 6) (num 1) (Fin 4) = (num cw, num ch)"
    using findCoBrightestROI_valid [of 4 0
      "\<lparr> img_data = [9, 9, 9, 255, 9, 9, 9, 255, 9, 9, 9, 255, 9, 9, 9, 255, 9, 9, 9, 255,
                     9, 9, 9, 255], img_width = 6, img_height = 1 \<rparr>"
      "\<lparr> img_data = [9, 9, 9, 255, 9, 9, 9, 255, 9, 9, 9, 255, 9, 9, 9, 255, 9, 9, 9, 255,
                     9, 9, 9, 255], img_width = 6, img_height = 1 \<rparr>"]
    by auto
  then show ?thesis using c by (simp add: num_def)
qed

text \<open>
  C8, as amended. One of the two sides is within one pixel of what the aspect ratio asks
  for: either \<open>w\<close> is the width of the image and \<open>h\<close> is within one pixel of \<open>width / r\<close>,
  or \<open>h\<close> is the effective height \<open>max(1, height - clipBottom)\<close> and \<open>w\<close> is within one pixel
  of \<open>h * r\<close>.
\<close>

theorem crop_ratio_within_one_pixel:
  assumes "0 < r" "0 \<le> clip" "img_width img1 < 2 ^ 32" "img_height img1 < 2 ^ 32"
  shows "\<exists>x y w h :: rat.
     findCoBrightestROI ieee img1 img2 (Fin r) (num clip) =
       Some \<lparr> rect_x = Fin x, rect_y = Fin y, rect_w = Fin w, rect_h = Fin h \<rparr> \<and>
     ((w = of_nat (img_width img1) \<and> \<bar>h - of_nat (img_width img1) / r\<bar> \<le> 1) \<or>
      (h = max 1 (of_nat (img_height img1) - of_int clip) \<and> \<bar>w - h * r\<bar> \<le> 1))"
proof -
  obtain X Y cw ch :: int where roi: "findCoBrightestROI ieee img1 img2 (Fin r) (num clip) =
       Some \<lparr> rect_x = num X, rect_y = num Y, rect_w = num cw, rect_h = num ch \<rparr>"
     "(cw = int (img_width img1) \<and> \<bar>of_int ch - of_int (int (img_width img1)) / r\<bar> \<le> 1) \<or>
      (ch = max 1 (int (img_height img1) - clip) \<and>
       \<bar>of_int cw - of_int (max 1 (int (img_height img1) - clip)) * r\<bar> \<le> 1)"
    using findCoBrightestROI_valid [OF assms, of img2] by blast
  define hh where "hh = max 1 (int (img_height img1) - clip)"
  have m: "max 1 (of_nat (img_height img1) - of_int clip) = rat_of_int hh"
    by (simp add: hh_def max_def)
  have w: "rat_of_nat (img_width img1) = rat_of_int (int (img_width img1))" by simp
  from roi(2) have "(rat_of_int cw = of_nat (img_width img1) \<and>
        \<bar>rat_of_int ch - of_nat (img_width img1) / r\<bar> \<le> 1) \<or>
      (rat_of_int ch = max 1 (of_nat (img_height img1) - of_int clip) \<and>
        \<bar>rat_of_int cw - rat_of_int ch * r\<bar> \<le> 1)"
    unfolding m w hh_def [symmetric] by blast
  then show ?thesis
    using roi(1)
    by (intro exI [of _ "of_int X"] exI [of _ "of_int Y"] exI [of _ "of_int cw"]
          exI [of _ "of_int ch"]) (simp add: num_def)
qed

theorem crop_ratio_within_one_pixel_witness:
  "(0::rat) < 4 \<and> (0::int) \<le> 0 \<and>
   (\<exists>x y w h :: rat.
     findCoBrightestROI ieee
       \<lparr> img_data = [9, 9, 9, 255, 9, 9, 9, 255, 9, 9, 9, 255, 9, 9, 9, 255, 9, 9, 9, 255,
                     9, 9, 9, 255], img_width = 6, img_height = 1 \<rparr>
       \<lparr> img_data = [9, 9, 9, 255, 9, 9, 9, 255, 9, 9, 9, 255, 9, 9, 9, 255, 9, 9, 9, 255,
                     9, 9, 9, 255], img_width = 6, img_height = 1 \<rparr> (Fin 4) (num 0) =
       Some \<lparr> rect_x = Fin x, rect_y = Fin y, rect_w = Fin w, rect_h = Fin h \<rparr> \<and>
     ((w = 6 \<and> \<bar>h - 6 / 4\<bar> \<le> 1) \<or> (h = 1 \<and> \<bar>w - h * 4\<bar> \<le> 1)))"
  using crop_ratio_within_one_pixel [of 4 0
       "\<lparr> img_data = [9, 9, 9, 255, 9, 9, 9, 255, 9, 9, 9, 255, 9, 9, 9, 255, 9, 9, 9, 255,
                     9, 9, 9, 255], img_width = 6, img_height = 1 \<rparr>"
       "\<lparr> img_data = [9, 9, 9, 255, 9, 9, 9, 255, 9, 9, 9, 255, 9, 9, 9, 255, 9, 9, 9, 255,
                     9, 9, 9, 255], img_width = 6, img_height = 1 \<rparr>"]
  by simp

section \<open>Errors\<close>




text \<open>
  C2. The claim has the pipeline raise \<open>DegenerateGeometryError\<close> whenever \<open>clipBottom\<close> is
  at least the height of the image. On an image 2 by 2 with \<open>clipBottom = 2\<close> and a target
  of 2 by 1 it returns a row, whose rectangle is 2 wide and 1 high.
\<close>

theorem degenerate_geometry_counterexample:
  "processRow ieee drawNearest id (Fin 0) (Fin 0)
     \<lparr> img_data = [10, 10, 10, 255, 20, 20, 20, 255, 30, 30, 30, 255, 40, 40, 40, 255],
       img_width = 2, img_height = 2 \<rparr>
     \<lparr> img_data = [10, 10, 10, 255, 20, 20, 20, 255, 30, 30, 30, 255, 40, 40, 40, 255],
       img_width = 2, img_height = 2 \<rparr>
     (sampleConfig 2 1 2) \<noteq> Some (Inl DegenerateGeometryError) \<and>
   map_option (map_sum id row_roi) (processRow ieee drawNearest id (Fin 0) (Fin 0)
     \<lparr> img_data = [10, 10, 10, 255, 20, 20, 20, 255, 30, 30, 30, 255, 40, 40, 40, 255],
       img_width = 2, img_height = 2 \<rparr>
     \<lparr> img_data = [10, 10, 10, 255, 20, 20, 20, 255, 30, 30, 30, 255, 40, 40, 40, 255],
       img_width = 2, img_height = 2 \<rparr>
     (sampleConfig 2 1 2)) =
     Some (Inr \<lparr> rect_x = Fin 0, rect_y = Fin 0, rect_w = Fin 2, rect_h = Fin 1 \<rparr>)"
proof -
  have r: "ndiv ieee (num 2) (num 1) = Fin 2"
    using rnd64_int [of 2] by (simp add: num_def ieee_def)
  have c: "cropSize ieee (num 2) (num 1) (Fin 2) = (num 2, num 1)"
    using rnd64_int [of 1] by (simp add: cropSize_def num_def ieee_def Let_def)
  obtain row X Y cw ch where row: "processRow ieee drawNearest id (Fin 0) (Fin 0)
     \<lparr> img_data = [10, 10, 10, 255, 20, 20, 20, 255, 30, 30, 30, 255, 40, 40, 40, 255],
       img_width = 2, img_height = 2 \<rparr>
     \<lparr> img_data = [10, 10, 10, 255, 20, 20, 20, 255, 30, 30, 30, 255, 40, 40, 40, 255],
       img_width = 2, img_height = 2 \<rparr>
     (sampleConfig 2 1 2) = Some (Inr row)"
     "row_roi row = \<lparr> rect_x = num X, rect_y = num Y, rect_w = num cw, rect_h = num ch \<rparr>"
     "0 \<le> X" "X + cw \<le> 2" "0 \<le> Y" "Y + ch \<le> 1"
     "cropSize ieee (num 2) (num 1) (Fin 2) = (num cw, num ch)"
    using processRow_valid [where config = "sampleConfig 2 1 2" and tw = 2 and th = 1 and clip = 2
      and ?img1.0 = "\<lparr> img_data = [10, 10, 10, 255, 20, 20, 20, 255, 30, 30, 30, 255, 40, 40, 40, 255],
       img_width = 2, img_height = 2 \<rparr>" and draw = drawNearest and readBack = id
      and ?random1.0 = "Fin 0" and ?random2.0 = "Fin 0"
      and ?img2.0 = "\<lparr> img_data = [10, 10, 10, 255, 20, 20, 20, 255, 30, 30, 30, 255, 40, 40, 40, 255],
       img_width = 2, img_height = 2 \<rparr>"]
    by (auto simp add: sampleConfig_def r)
  have "cw = 2" "ch = 1" using row(7) c by (simp_all add: num_def)
  then have "X = 0" "Y = 0" using row(3-6) by simp_all
  then show ?thesis using row(1,2) \<open>cw = 2\<close> \<open>ch = 1\<close> by (simp add: num_def)
qed

text \<open>
  C2, as amended. When \<^verbatim>\<open>clipBottom\<close> is an integer that is at least the height of the
  image, with \<^verbatim>\<open>targetWidth\<close> and \<^verbatim>\<open>targetHeight\<close> positive integers below \<open>2 ^ 31\<close>
  and the dimensions of the image below \<open>2 ^ 32\<close>, no error is raised: the effective
  height is floored at 1, \<open>max(1, height - clipBottom) = 1\<close>, and \<^verbatim>\<open>processRow\<close> returns a
  row whose rectangle has \<open>y = 0\<close> and the crop size computed for the effective height 1.
  The height of the rectangle is 1 whenever \<open>targetWidth \<le> width * targetHeight\<close>, and it
  is 0 or 1 otherwise.
\<close>

theorem clipped_height_floored:
  assumes "targetWidth config = num tw" "0 < tw" "tw < 2 ^ 31"
    and "targetHeight config = num th" "0 < th" "th < 2 ^ 31"
    and "clipBottom config = num clip" "int (img_height img1) \<le> clip"
    and "img_width img1 < 2 ^ 32" "img_height img1 < 2 ^ 32"
  shows "effectiveHeight ieee img1 (clipBottom config) = Fin 1 \<and>
     (\<exists>row. processRow ieee draw readBack random1 random2 img1 img2 config = Some (Inr row) \<and>
        rect_y (row_roi row) = Fin 0 \<and>
        (rect_w (row_roi row), rect_h (row_roi row)) =
          cropSize ieee (num (int (img_width img1))) (Fin 1)
            (ndiv ieee (targetWidth config) (targetHeight config)) \<and>
        (rect_h (row_roi row) = Fin 0 \<or> rect_h (row_roi row) = Fin 1) \<and>
        (tw \<le> int (img_width img1) * th \<longrightarrow> rect_h (row_roi row) = Fin 1))"
proof -
  have c: "0 \<le> clip" using assms(8) by simp
  have m: "max 1 (int (img_height img1) - clip) = 1" using assms(8) by simp
  have eh: "effectiveHeight ieee img1 (clipBottom config) = Fin 1"
    using effectiveHeight_valid [OF c assms(10)] by (simp add: assms(7) m num_def)
  obtain row r X Y cw ch where row:
      "ndiv ieee (targetWidth config) (targetHeight config) = Fin r" "0 < r"
      "\<forall>n::int. tw \<le> n * th \<longrightarrow> \<bar>n\<bar> \<le> 2 ^ 53 \<longrightarrow> r \<le> of_int n"
      "processRow ieee draw readBack random1 random2 img1 img2 config = Some (Inr row)"
      "row_roi row = \<lparr> rect_x = num X, rect_y = num Y, rect_w = num cw, rect_h = num ch \<rparr>"
      "0 \<le> Y" "4 dvd Y" "Y + ch \<le> 1" "0 \<le> ch"
      "cropSize ieee (num (int (img_width img1))) (num 1) (Fin r) = (num cw, num ch)"
    using processRow_valid [OF assms(1-7) c assms(9,10), of img2 draw readBack random1 random2]
    unfolding m by blast
  have Y: "Y = 0" using row(6-9) by presburger
  have ch: "ch = 0 \<or> ch = 1" using row(6,8,9) by linarith
  have n1: "num 1 = Fin 1" by (simp add: num_def)
  have one: "ch = 1" if "tw \<le> int (img_width img1) * th"
  proof -
    have "\<bar>int (img_width img1)\<bar> \<le> 2 ^ 53" using assms(9) by simp
    with row(3) that have "r \<le> of_int (int (img_width img1))" by blast
    from cropSize_height_one [OF row(2) this] row(10) show ?thesis
      by (simp add: n1 num_def)
  qed
  show ?thesis
    using eh row(1,4,5,10) Y ch one
    by (intro conjI exI [of _ row]) (auto simp add: n1 num_def)
qed

theorem clipped_height_floored_witness:
  "effectiveHeight ieee
     \<lparr> img_data = [10, 10, 10, 255, 20, 20, 20, 255, 30, 30, 30, 255, 40, 40, 40, 255],
       img_width = 2, img_height = 2 \<rparr> (clipBottom (sampleConfig 2 1 2)) = Fin 1 \<and>
   (\<exists>row. processRow ieee drawNearest id (Fin 0) (Fin 0)
     \<lparr> img_data = [10, 10, 10, 255, 20, 20, 20, 255, 30, 30, 30, 255, 40, 40, 40, 255],
       img_width = 2, img_height = 2 \<rparr>
     \<lparr> img_data = [10, 10, 10, 255, 20, 20, 20, 255, 30, 30, 30, 255, 40, 40, 40, 255],
       img_width = 2, img_height = 2 \<rparr>
     (sampleConfig 2 1 2) = Some (Inr row) \<and>
     rect_y (row_roi row) = Fin 0 \<and> rect_h (row_roi row) = Fin 1)"
  using clipped_height_floored [where config = "sampleConfig 2 1 2" and tw = 2 and th = 1
      and clip = 2 and draw = drawNearest and readBack = id
      and ?random1.0 = "Fin 0" and ?random2.0 = "Fin 0"
      and ?img1.0 = "\<lparr> img_data = [10, 10, 10, 255, 20, 20, 20, 255, 30, 30, 30, 255, 40, 40, 40, 255],
       img_width = 2, img_height = 2 \<rparr>"
      and ?img2.0 = "\<lparr> img_data = [10, 10, 10, 255, 20, 20, 20, 255, 30, 30, 30, 255, 40, 40, 40, 255],
       img_width = 2, img_height = 2 \<rparr>"]
  by (auto simp add: sampleConfig_def)

section \<open>The brightness adjustment and the merge\<close>

text \<open>
  C5. On two pixel arrays of \<open>n\<close> pixels, the merge loop computes pixel \<open>p\<close> as the
  specification says: \<open>(channel2.R, channel1.R, 0, 255)\<close> if the R, G and B of channel 1 are
  pairwise equal, and the three sums clamped at 255, with alpha 255, otherwise.
\<close>

theorem merge_pixel_rule:
  assumes "length d1 = 4 * n" "length d2 = 4 * n" "length mData = 4 * n"
    and "\<forall>b \<in> set d1 \<union> set d2. 0 \<le> b \<and> b \<le> 255"
    and "p < n"
  shows "pixel (mergeChannels ieee d1 d2 0 mData) p = spec_mergePixel (pixel d1 p) (pixel d2 p)"
  using mergeChannels_pixel [OF assms(1,2,4,5,3), of 0] by simp

theorem merge_pixel_rule_witness:
  "length [10, 10, 10, 255, 100, 50, 0, 255 :: int] = 4 * 2 \<and>
   length [7, 7, 7, 255, 200, 250, 0, 255 :: int] = 4 * 2 \<and>
   (1::nat) < 2 \<and>
   pixel (mergeChannels ieee [10, 10, 10, 255, 100, 50, 0, 255] [7, 7, 7, 255, 200, 250, 0, 255] 0
            [0, 0, 0, 0, 0, 0, 0, 0]) 0 = (7, 10, 0, 255) \<and>
   pixel (mergeChannels ieee [10, 10, 10, 255, 100, 50, 0, 255] [7, 7, 7, 255, 200, 250, 0, 255] 0
            [0, 0, 0, 0, 0, 0, 0, 0]) 1 = (255, 255, 0, 255)"
  using merge_pixel_rule [of "[10, 10, 10, 255, 100, 50, 0, 255]" 2
          "[7, 7, 7, 255, 200, 250, 0, 255]" "[0, 0, 0, 0, 0, 0, 0, 0]" 0]
        merge_pixel_rule [of "[10, 10, 10, 255, 100, 50, 0, 255]" 2
          "[7, 7, 7, 255, 200, 250, 0, 255]" "[0, 0, 0, 0, 0, 0, 0, 0]" 1]
  by (simp add: pixel_def spec_mergePixel_def)

text \<open>
  An example of the brightness adjustment: one pixel \<open>(50, 100, 200)\<close>, a target intensity
  of 400 and no jitter. The maximum is 200, the scale 2, and the third value, 400, is
  clamped at 255.
\<close>

lemma example_draw: "drawNearest \<lparr> img_data = [50, 100, 200, 255], img_width = 1, img_height = 1 \<rparr>
     \<lparr> rect_x = Fin 0, rect_y = Fin 0, rect_w = Fin 1, rect_h = Fin 1 \<rparr> (num 1) (num 1) =
     [50, 100, 200, 255]"
  by (simp add: drawNearest_def pixelAt_def the_fin_def num_def)

lemma example_target: "brightnessTarget ieee ((sampleConfig 1 1 0) \<lparr> targetIntensity := Fin 400 \<rparr>) (Fin (1 / 2)) = Fin 400"
  using rnd64_int [of 1] rnd64_int [of 400]
  by (simp add: brightnessTarget_def sampleConfig_def ieee_def Let_def)

lemma example_max: "maxIntensity [50, 100, 200, 255] 0 (Fin 1) = Fin 200"
  by (simp add: maxIntensity.simps max3_def u8_get_def u8_read_def to_number_def num_def Let_def)

lemma example_scale: "brightnessScale ieee ((sampleConfig 1 1 0) \<lparr> targetIntensity := Fin 400 \<rparr>) (Fin (1 / 2))
    [50, 100, 200, 255] = Fin 2"
  using rnd64_int [of 2] unfolding brightnessScale_def example_target example_max
  by (simp add: ieee_def Let_def)

lemma example_applyScale: "applyScale ieee (Fin 2) 0 [50, 100, 200, 255] = [100, 200, 255, 255]"
  using rnd64_int [of 100] rnd64_int [of 200] rnd64_int [of 400]
    toUint8Clamp_byte [of 100] toUint8Clamp_byte [of 200] toUint8Clamp_byte [of 255]
  by (simp add: applyScale.simps u8_get_def u8_read_def to_number_def num_def ieee_def Let_def)

lemma processChannel_example:
  "processChannel ieee drawNearest ((sampleConfig 1 1 0) \<lparr> targetIntensity := Fin 400 \<rparr>)
     (Fin (1 / 2)) \<lparr> img_data = [50, 100, 200, 255], img_width = 1, img_height = 1 \<rparr>
     \<lparr> rect_x = Fin 0, rect_y = Fin 0, rect_w = Fin 1, rect_h = Fin 1 \<rparr> Green =
   Inr [100, 200, 255, 255]"
proof -
  have t: "targetWidth ((sampleConfig 1 1 0) \<lparr> targetIntensity := Fin 400 \<rparr>) = num 1"
      "targetHeight ((sampleConfig 1 1 0) \<lparr> targetIntensity := Fin 400 \<rparr>) = num 1"
    by (simp_all add: sampleConfig_def)
  show ?thesis
    unfolding processChannel_def adjustBrightness_def t example_draw example_scale
      example_applyScale
    using imageDataSize_valid [of 1 1] by simp
qed

text \<open>
  C6. Every R, G and B value that the brightness adjustment of \<^verbatim>\<open>processChannel\<close> writes
  is in \<open>0 .. 255\<close>, whatever the scale is; and the scale is the target divided by the
  maximum, which is a finite number, at least 1: the division is never one by zero.
\<close>

theorem normalized_values_in_range:
  assumes "processChannel R draw config random source roi colorFilter = Inr out"
  shows "(\<forall>j < length out. j mod 4 \<noteq> 3 \<longrightarrow> 0 \<le> out ! j \<and> out ! j \<le> 255) \<and>
     (\<exists>m. 1 \<le> m \<and>
        brightnessScale R config random
            (draw source roi (targetWidth config) (targetHeight config)) =
          ndiv R (brightnessTarget R config random) (Fin m) \<and>
        (\<forall>t. brightnessTarget R config random = Fin t \<longrightarrow>
           brightnessScale R config random
             (draw source roi (targetWidth config) (targetHeight config)) = dbl R (t / m)) \<and>
        out = applyScale R (ndiv R (brightnessTarget R config random) (Fin m)) 0
                (draw source roi (targetWidth config) (targetHeight config)))"
proof -
  let ?data = "draw source roi (targetWidth config) (targetHeight config)"
  have out: "out = applyScale R (brightnessScale R config random ?data) 0 ?data"
    using assms by (simp add: processChannel_def adjustBrightness_def split: sum.splits)
  obtain m where m: "maxIntensity ?data 0 (Fin 1) = Fin m" "1 \<le> m"
    using maxIntensity_floor [of "Fin 1" 1 ?data 0] by auto
  have s: "brightnessScale R config random ?data = ndiv R (brightnessTarget R config random) (Fin m)"
    by (simp add: brightnessScale_def m(1) Let_def)
  have q: "brightnessScale R config random ?data = dbl R (t / m)"
    if "brightnessTarget R config random = Fin t" for t
    using m(2) by (simp add: s that)
  have range: "\<forall>j < length out. j mod 4 \<noteq> 3 \<longrightarrow> 0 \<le> out ! j \<and> out ! j \<le> 255"
    unfolding out by (simp add: applyScale_range)
  show ?thesis
  proof (intro conjI exI [of _ m])
    show "\<forall>j < length out. j mod 4 \<noteq> 3 \<longrightarrow> 0 \<le> out ! j \<and> out ! j \<le> 255"
      by (rule range)
    show "1 \<le> m" by (rule m(2))
    show "brightnessScale R config random ?data =
        ndiv R (brightnessTarget R config random) (Fin m)"
      by (rule s)
    show "\<forall>t. brightnessTarget R config random = Fin t \<longrightarrow>
        brightnessScale R config random ?data = dbl R (t / m)"
      using q by blast
    show "out = applyScale R (ndiv R (brightnessTarget R config random) (Fin m)) 0 ?data"
      using out by (simp only: s)
  qed
qed

theorem normalized_values_in_range_witness:
  "processChannel ieee drawNearest ((sampleConfig 1 1 0) \<lparr> targetIntensity := Fin 400 \<rparr>)
     (Fin (1 / 2)) \<lparr> img_data = [50, 100, 200, 255], img_width = 1, img_height = 1 \<rparr>
     \<lparr> rect_x = Fin 0, rect_y = Fin 0, rect_w = Fin 1, rect_h = Fin 1 \<rparr> Green =
     Inr [100, 200, 255, 255] \<and>
   0 \<le> [100, 200, 255, 255 :: int] ! 2 \<and> [100, 200, 255, 255 :: int] ! 2 \<le> 255 \<and>
   (\<exists>m. 1 \<le> m \<and>
      brightnessScale ieee ((sampleConfig 1 1 0) \<lparr> targetIntensity := Fin 400 \<rparr>) (Fin (1 / 2))
        (drawNearest \<lparr> img_data = [50, 100, 200, 255], img_width = 1, img_height = 1 \<rparr>
           \<lparr> rect_x = Fin 0, rect_y = Fin 0, rect_w = Fin 1, rect_h = Fin 1 \<rparr> (num 1) (num 1)) =
      ndiv ieee
        (brightnessTarget ieee ((sampleConfig 1 1 0) \<lparr> targetIntensity := Fin 400 \<rparr>) (Fin (1 / 2)))
        (Fin m))"
proof -
  have t: "targetWidth ((sampleConfig 1 1 0) \<lparr> targetIntensity := Fin 400 \<rparr>) = num 1"
      "targetHeight ((sampleConfig 1 1 0) \<lparr> targetIntensity := Fin 400 \<rparr>) = num 1"
    by (simp_all add: sampleConfig_def)
  from normalized_values_in_range [OF processChannel_example] show ?thesis
    unfolding t using processChannel_example by auto
qed

section \<open>Determinism and what the rectangle depends on\<close>

text \<open>
  C7. Two-run determinism. With \<^verbatim>\<open>randomness = 0\<close> the brightness adjustment of a channel
  gives the same result whatever value \<^verbatim>\<open>Math.random()\<close> returns in the two runs; and,
  whatever the jitter and the random values are, the rectangle that \<^verbatim>\<open>processRow\<close> gets
  from \<^verbatim>\<open>findCoBrightestROI\<close> is the same in two runs on the same images and config.
\<close>

theorem two_run_determinism:
  "(randomness config = Fin 0 \<longrightarrow>
      processChannel R draw config (Fin u1) source roi colorFilter =
      processChannel R draw config (Fin u2) source roi colorFilter) \<and>
   map_option (map_sum id row_roi)
     (processRow R draw readBack random1 random2 img1 img2 config) =
   map_option (map_sum id row_roi)
     (processRow R draw readBack random1' random2' img1 img2 config)"
proof (intro conjI impI)
  assume "randomness config = Fin 0"
  then have "brightnessScale R config (Fin u1) data = brightnessScale R config (Fin u2) data"
    for data by (simp add: brightnessScale_def brightnessTarget_def)
  then show "processChannel R draw config (Fin u1) source roi colorFilter =
      processChannel R draw config (Fin u2) source roi colorFilter"
    by (simp add: processChannel_def adjustBrightness_def split: sum.splits)
next
  show "map_option (map_sum id row_roi)
     (processRow R draw readBack random1 random2 img1 img2 config) =
   map_option (map_sum id row_roi)
     (processRow R draw readBack random1' random2' img1 img2 config)"
    by (cases "findCoBrightestROI R img1 img2
          (ndiv R (targetWidth config) (targetHeight config)) (clipBottom config)";
        cases "imageDataSize (targetWidth config) (targetHeight config)")
       (simp_all add: processRow_def processChannel_def Let_def)
qed

theorem two_run_determinism_witness:
  "randomness (sampleConfig 1 1 0) = Fin 0 \<and>
   processChannel ieee drawNearest (sampleConfig 1 1 0)
     (Fin 0) \<lparr> img_data = [10, 20, 30, 255], img_width = 1, img_height = 1 \<rparr>
     \<lparr> rect_x = Fin 0, rect_y = Fin 0, rect_w = Fin 1, rect_h = Fin 1 \<rparr> Green =
   processChannel ieee drawNearest (sampleConfig 1 1 0)
     (Fin (1 / 2)) \<lparr> img_data = [10, 20, 30, 255], img_width = 1, img_height = 1 \<rparr>
     \<lparr> rect_x = Fin 0, rect_y = Fin 0, rect_w = Fin 1, rect_h = Fin 1 \<rparr> Green"
  using two_run_determinism [where R = ieee and ?u1.0 = 0 and ?u2.0 = "1 / 2" and
     config = "sampleConfig 1 1 0"]
  by (simp add: sampleConfig_def)

text \<open>
  C9. The rectangle does not depend on the width and height the second image declares:
  both integral tables are built with the dimensions of the first image, and the second
  image is read through its pixel array only. Two second images with the same pixel
  array give the same result.
\<close>

theorem roi_ignores_second_dimensions:
  assumes "img_data img2 = img_data img2'"
  shows "findCoBrightestROI R img1 img2 targetAspectRatio clip =
         findCoBrightestROI R img1 img2' targetAspectRatio clip"
  using assms by (simp add: findCoBrightestROI_def)

theorem roi_ignores_second_dimensions_witness:
  "img_data \<lparr> img_data = [10, 10, 10, 255, 20, 20, 20, 255, 30, 30, 30, 255,
                              40, 40, 40, 255, 50, 50, 50, 255, 60, 60, 60, 255],
              img_width = 2, img_height = 3 \<rparr> =
   img_data \<lparr> img_data = [10, 10, 10, 255, 20, 20, 20, 255, 30, 30, 30, 255,
                              40, 40, 40, 255, 50, 50, 50, 255, 60, 60, 60, 255],
              img_width = 3, img_height = 2 \<rparr> \<and>
   findCoBrightestROI ieee
     \<lparr> img_data = [1, 1, 1, 255, 2, 2, 2, 255, 3, 3, 3, 255,
                     4, 4, 4, 255, 5, 5, 5, 255, 6, 6, 6, 255],
       img_width = 2, img_height = 3 \<rparr>
     \<lparr> img_data = [10, 10, 10, 255, 20, 20, 20, 255, 30, 30, 30, 255,
                     40, 40, 40, 255, 50, 50, 50, 255, 60, 60, 60, 255],
       img_width = 2, img_height = 3 \<rparr> (Fin 1) (num 0) =
   findCoBrightestROI ieee
     \<lparr> img_data = [1, 1, 1, 255, 2, 2, 2, 255, 3, 3, 3, 255,
                     4, 4, 4, 255, 5, 5, 5, 255, 6, 6, 6, 255],
       img_width = 2, img_height = 3 \<rparr>
     \<lparr> img_data = [10, 10, 10, 255, 20, 20, 20, 255, 30, 30, 30, 255,
                     40, 40, 40, 255, 50, 50, 50, 255, 60, 60, 60, 255],
       img_width = 3, img_height = 2 \<rparr> (Fin 1) (num 0)"
  by (simp add: roi_ignores_second_dimensions)

section \<open>The integral image\<close>

lemma exact_ops [simp]:
  "nadd exact (Fin a) (Fin b) = Fin (a + b)"
  "nsub exact (Fin a) (Fin b) = Fin (a - b)"
  "nmul exact (Fin a) (Fin b) = Fin (a * b)"
  "dbl exact q = Fin q"
  "fround exact (Fin q) = Fin q"
  by (simp_all add: exact_def fround_def)

lemma luminance_exact:
  assumes "idx + 2 < length data"
  shows "luminance exact data idx = Fin (lumExact data idx)"
  using assms by (simp add: luminance_def lumExact_def u8_get_def u8_read_def to_number_def num_def)

lemma bruteForceSum_row_Suc:
  "bruteForceSum data width x y w (Suc h) =
   bruteForceSum data width x y w h + bruteForceSum data width x (y + h) w 1"
  by (simp add: bruteForceSum_def)

lemma bruteForceSum_col_Suc:
  "bruteForceSum data width x y (Suc w) 1 =
   bruteForceSum data width x y w 1 + lumExact data ((y * width + (x + w)) * 4)"
  by (simp add: bruteForceSum_def)

lemma bruteForceSum_empty [simp]:
  "bruteForceSum data width x y w 0 = 0" "bruteForceSum data width x y 0 h = 0"
  by (simp_all add: bruteForceSum_def)

lemma bruteForceSum_split_rows:
  "bruteForceSum data width x y w (h1 + h2) =
   bruteForceSum data width x y w h1 + bruteForceSum data width x (y + h1) w h2"
proof -
  have "[y ..< y + (h1 + h2)] = [y ..< y + h1] @ [y + h1 ..< y + h1 + h2]"
    using upt_add_eq_append [of y "y + h1" h2] by (simp add: add.assoc)
  then show ?thesis by (simp add: bruteForceSum_def)
qed

lemma bruteForceSum_split_cols:
  "bruteForceSum data width x y (w1 + w2) h =
   bruteForceSum data width x y w1 h + bruteForceSum data width (x + w1) y w2 h"
proof -
  have "[x ..< x + (w1 + w2)] = [x ..< x + w1] @ [x + w1 ..< x + w1 + w2]"
    using upt_add_eq_append [of x "x + w1" w2] by (simp add: add.assoc)
  then show ?thesis by (simp add: bruteForceSum_def sum_list_addf)
qed

lemma cell_less:
  fixes i j W H :: nat
  assumes "i < W" "j < H"
  shows "j * W + i < H * W"
proof -
  have "j * W + i < Suc j * W" using assms(1) by simp
  also have "\<dots> \<le> H * W" using assms(2) by (intro mult_le_mono1) simp
  finally show ?thesis .
qed

lemma integralRow_exact:
  assumes data: "4 * (W * H) \<le> length data" and y: "y < H"
  shows "x \<le> W \<Longrightarrow> length integral = W * H \<Longrightarrow>
     rowSum = Fin (bruteForceSum data W 0 y x 1) \<Longrightarrow>
     (y \<noteq> 0 \<longrightarrow> (\<forall>i<W. integral ! ((y - 1) * W + i) = Fin (bruteForceSum data W 0 0 (Suc i) y))) \<Longrightarrow>
     length (integralRow exact data W y x rowSum integral) = W * H \<and>
     (\<forall>i. x \<le> i \<and> i < W \<longrightarrow>
        integralRow exact data W y x rowSum integral ! (y * W + i) =
        Fin (bruteForceSum data W 0 0 (Suc i) (Suc y))) \<and>
     (\<forall>k. k < y * W + x \<or> (y + 1) * W \<le> k \<longrightarrow>
        integralRow exact data W y x rowSum integral ! k = integral ! k)"
proof (induction "W - x" arbitrary: x rowSum integral)
  case 0
  then have "x = W" by simp
  then show ?case using "0.prems" by (subst (1 2 3) integralRow.simps) auto
next
  case (Suc n)
  then have x: "x < W" by simp
  have cell: "y * W + x < W * H" using cell_less [OF x y] by (simp add: mult.commute)
  then have idx: "(y * W + x) * 4 + 2 < length data" using data by simp
  define rowSum' where "rowSum' = Fin (bruteForceSum data W 0 y (Suc x) 1)"
  define v where "v = Fin (bruteForceSum data W 0 0 (Suc x) (Suc y))"
  define integral' where "integral' = integral[y * W + x := v]"
  have lum: "luminance exact data ((y * W + x) * 4) = Fin (lumExact data ((y * W + x) * 4))"
    by (rule luminance_exact [OF idx])
  have rs: "nadd exact rowSum (luminance exact data ((y * W + x) * 4)) = rowSum'"
    unfolding lum Suc.prems(3) rowSum'_def
    using bruteForceSum_col_Suc [of data W 0 y x] by simp
  have v: "(if y = 0 then rowSum' else nadd exact rowSum' (f32_at integral ((y - 1) * W + x))) = v"
  proof (cases "y = 0")
    case True
    then show ?thesis
      using bruteForceSum_row_Suc [of data W 0 0 "Suc x" 0] by (simp add: rowSum'_def v_def)
  next
    case False
    have "(y - 1) * W + x < W * H"
      using cell_less [OF x, of "y - 1" H] y by (simp add: mult.commute)
    then have "f32_at integral ((y - 1) * W + x) = Fin (bruteForceSum data W 0 0 (Suc x) y)"
      using Suc.prems(2,4) False x by (simp add: f32_at_def)
    then show ?thesis
      using False bruteForceSum_row_Suc [of data W 0 0 "Suc x" y]
      by (simp add: rowSum'_def v_def add.commute)
  qed
  have unf: "integralRow exact data W y x rowSum integral =
             integralRow exact data W y (Suc x) rowSum' integral'"
    by (subst integralRow.simps, simp only: x if_True Let_def rs v)
       (simp add: integral'_def v_def)
  have prev: "y \<noteq> 0 \<longrightarrow> (\<forall>i<W. integral' ! ((y - 1) * W + i) = Fin (bruteForceSum data W 0 0 (Suc i) y))"
  proof (intro impI allI)
    fix i assume "y \<noteq> 0" "i < W"
    then have "(y - 1) * W + i < y * W"
      using cell_less [of i W "y - 1" y] by simp
    then show "integral' ! ((y - 1) * W + i) = Fin (bruteForceSum data W 0 0 (Suc i) y)"
      using Suc.prems(4) \<open>y \<noteq> 0\<close> \<open>i < W\<close> by (simp add: integral'_def)
  qed
  have IH: "length (integralRow exact data W y (Suc x) rowSum' integral') = W * H \<and>
     (\<forall>i. Suc x \<le> i \<and> i < W \<longrightarrow>
        integralRow exact data W y (Suc x) rowSum' integral' ! (y * W + i) =
        Fin (bruteForceSum data W 0 0 (Suc i) (Suc y))) \<and>
     (\<forall>k. k < y * W + Suc x \<or> (y + 1) * W \<le> k \<longrightarrow>
        integralRow exact data W y (Suc x) rowSum' integral' ! k = integral' ! k)"
    using Suc.hyps(2) x Suc.prems(2) prev
    by (intro Suc.hyps(1)) (simp_all add: rowSum'_def integral'_def)
  show ?case
  proof (intro conjI allI impI)
    show "length (integralRow exact data W y x rowSum integral) = W * H"
      using IH by (simp add: unf)
  next
    fix i assume i: "x \<le> i \<and> i < W"
    show "integralRow exact data W y x rowSum integral ! (y * W + i) =
        Fin (bruteForceSum data W 0 0 (Suc i) (Suc y))"
    proof (cases "i = x")
      case True
      have "integralRow exact data W y (Suc x) rowSum' integral' ! (y * W + x) = integral' ! (y * W + x)"
        using IH by simp
      then show ?thesis
        using True cell Suc.prems(2) by (simp add: unf integral'_def v_def)
    next
      case False
      then show ?thesis using IH i by (simp add: unf)
    qed
  next
    fix k assume k: "k < y * W + x \<or> (y + 1) * W \<le> k"
    then have "k \<noteq> y * W + x" using x by auto
    moreover have "integralRow exact data W y (Suc x) rowSum' integral' ! k = integral' ! k"
      using IH k by auto
    ultimately show "integralRow exact data W y x rowSum integral ! k = integral ! k"
      by (simp add: unf integral'_def)
  qed
qed

lemma integralRows_exact:
  assumes data: "4 * (W * H) \<le> length data"
  shows "y \<le> H \<Longrightarrow> length integral = W * H \<Longrightarrow>
     (\<forall>j<y. \<forall>i<W. integral ! (j * W + i) = Fin (bruteForceSum data W 0 0 (Suc i) (Suc j))) \<Longrightarrow>
     (\<forall>j<H. \<forall>i<W. integralRows exact data W H y integral ! (j * W + i) =
        Fin (bruteForceSum data W 0 0 (Suc i) (Suc j)))"
proof (induction "H - y" arbitrary: y integral)
  case 0
  then have "y = H" by simp
  then show ?case using "0.prems" by (subst integralRows.simps) simp
next
  case (Suc n)
  then have y: "y < H" by simp
  define r where "r = integralRow exact data W y 0 (Fin 0) integral"
  have prev: "y \<noteq> 0 \<longrightarrow> (\<forall>i<W. integral ! ((y - 1) * W + i) = Fin (bruteForceSum data W 0 0 (Suc i) y))"
    using Suc.prems(3) by (auto dest!: spec [of _ "y - 1"])
  have row: "length r = W * H"
     "\<forall>i. i < W \<longrightarrow> r ! (y * W + i) = Fin (bruteForceSum data W 0 0 (Suc i) (Suc y))"
     "\<forall>k. k < y * W \<or> (y + 1) * W \<le> k \<longrightarrow> r ! k = integral ! k"
    using integralRow_exact [OF data y, of 0 integral "Fin 0"] Suc.prems(2) prev
    by (simp_all add: r_def)
  have "\<forall>j<Suc y. \<forall>i<W. r ! (j * W + i) = Fin (bruteForceSum data W 0 0 (Suc i) (Suc j))"
  proof (intro allI impI)
    fix j i assume j: "j < Suc y" and i: "i < W"
    show "r ! (j * W + i) = Fin (bruteForceSum data W 0 0 (Suc i) (Suc j))"
    proof (cases "j = y")
      case True
      then show ?thesis using row(2) i by simp
    next
      case False
      then have "j < y" using j by simp
      then have "j * W + i < y * W" using cell_less [OF i, of j y] by simp
      then show ?thesis using row(3) Suc.prems(3) \<open>j < y\<close> i by simp
    qed
  qed
  then have "\<forall>j<H. \<forall>i<W. integralRows exact data W H (Suc y) r ! (j * W + i) =
        Fin (bruteForceSum data W 0 0 (Suc i) (Suc j))"
    using Suc.hyps(2) y row(1) by (intro Suc.hyps(1)) simp_all
  then show ?case
    using y by (subst integralRows.simps) (simp add: r_def)
qed

lemma computeIntegralImage_exact:
  assumes "4 * (W * H) \<le> length data" "i < W" "j < H"
  shows "computeIntegralImage exact data W H ! (j * W + i) =
         Fin (bruteForceSum data W 0 0 (Suc i) (Suc j))"
  using integralRows_exact [OF assms(1), of 0 "replicate (W * H) (Fin 0)"] assms(2,3)
  by (simp add: computeIntegralImage_def)

lemma length_integralRow [simp]:
  "length (integralRow R data W y x rowSum integral) = length integral"
  by (induction R data W y x rowSum integral rule: integralRow.induct)
     (subst integralRow.simps, simp add: Let_def)

lemma length_integralRows [simp]:
  "length (integralRows R data W H y integral) = length integral"
  by (induction R data W H y integral rule: integralRows.induct)
     (subst integralRows.simps, simp)

lemma length_computeIntegralImage [simp]:
  "length (computeIntegralImage R data W H) = W * H"
  by (simp add: computeIntegralImage_def)

lemma f32_get_nat:
  "k < length a \<Longrightarrow> f32_get a (Fin (of_nat k)) = a ! k"
  by (simp add: f32_get_def f32_at_def)

lemma table_at:
  assumes "4 * (W * H) \<le> length data" "i < W" "j < H"
  shows "f32_get (computeIntegralImage exact data W H) (Fin (of_nat (j * W + i))) =
         Fin (bruteForceSum data W 0 0 (Suc i) (Suc j))"
proof -
  have "j * W + i < W * H" using cell_less [OF assms(2,3)] by (simp add: mult.commute)
  then show ?thesis
    using computeIntegralImage_exact [OF assms] by (simp only: f32_get_nat length_computeIntegralImage)
qed

lemma rect_inclusion_exclusion:
  "bruteForceSum data W 0 0 (x + w) (y + h) - bruteForceSum data W 0 0 (x + w) y -
   bruteForceSum data W 0 0 x (y + h) + bruteForceSum data W 0 0 x y =
   bruteForceSum data W x y w h"
proof -
  have 1: "bruteForceSum data W 0 0 (x + w) (y + h) =
           bruteForceSum data W 0 0 (x + w) y + bruteForceSum data W 0 y (x + w) h"
    using bruteForceSum_split_rows [of data W 0 0 "x + w" y h] by simp
  have 2: "bruteForceSum data W 0 y (x + w) h =
           bruteForceSum data W 0 y x h + bruteForceSum data W x y w h"
    using bruteForceSum_split_cols [of data W 0 y x w h] by simp
  have 3: "bruteForceSum data W 0 0 x (y + h) =
           bruteForceSum data W 0 0 x y + bruteForceSum data W 0 y x h"
    using bruteForceSum_split_rows [of data W 0 0 x y h] by simp
  show ?thesis by (simp add: 1 2 3)
qed

lemma round_to_eval:
  assumes e: "pow2 e \<le> \<bar>q\<bar>" "\<bar>q\<bar> < pow2 (e + 1)" "emin \<le> e"
    and n: "round_half_even (q / pow2 (e - int p + 1)) = n"
    and b: "\<bar>of_int n * pow2 (e - int p + 1)\<bar> < pow2 k" "k \<le> emax + 1"
  shows "round_to p emin emax q = Fin (of_int n * pow2 (e - int p + 1))"
proof -
  have q: "q \<noteq> 0" using e(1) pow2_pos [of e] by auto
  have "ilog2 \<bar>q\<bar> = e" using e(1,2) by (rule ilog2_unique)
  then have u: "quantum p emin q = pow2 (e - int p + 1)"
    using e(3) by (simp add: quantum_def max_def)
  have v: "round_val p emin q = of_int n * pow2 (e - int p + 1)"
    by (simp add: round_val_def u n)
  have "\<bar>round_val p emin q\<bar> < pow2 (emax + 1)"
    using b(1) pow2_mono [OF b(2)] unfolding v by (rule less_le_trans)
  then show ?thesis using q by (simp add: round_to_def Let_def v)
qed

lemma round_half_even_nearest:
  assumes "of_int n - 1 / 2 < x" "x < of_int n + 1 / 2"
  shows "round_half_even x = n"
proof -
  have "\<lfloor>x\<rfloor> = n - 1 \<or> \<lfloor>x\<rfloor> = n"
  proof -
    have "of_int (n - 1) \<le> x" using assms(1) by simp
    then have "n - 1 \<le> \<lfloor>x\<rfloor>" by (simp only: le_floor_iff)
    moreover have "x < of_int (n + 1)" using assms(2) by simp
    then have "\<lfloor>x\<rfloor> < n + 1" by (simp only: floor_less_iff)
    ultimately show ?thesis by linarith
  qed
  then show ?thesis
  proof
    assume f: "\<lfloor>x\<rfloor> = n - 1"
    then have "1 / 2 < x - of_int \<lfloor>x\<rfloor>" using assms(1) by simp
    then show ?thesis using f by (simp add: round_half_even_def Let_def)
  next
    assume f: "\<lfloor>x\<rfloor> = n"
    then have "x - of_int \<lfloor>x\<rfloor> < 1 / 2" using assms(2) by simp
    then show ?thesis using f by (simp add: round_half_even_def Let_def)
  qed
qed

lemma literal_299: "rnd64 (299 / 1000) = Fin (5386305154335113 / 18014398509481984)"
proof -
  have "rnd64 (299 / 1000) = Fin (of_int 5386305154335113 * pow2 (- 2 - int 53 + 1))"
    unfolding rnd64_def
    by (rule round_to_eval [where k = 0])
       (simp_all add: pow2_def round_half_even_nearest)
  then show ?thesis by (simp add: pow2_def)
qed

lemma fround_299:
  "rnd32 (5386305154335113 / 18014398509481984) = Fin (10032775 / 33554432)"
proof -
  have "rnd32 (5386305154335113 / 18014398509481984) =
        Fin (of_int 10032775 * pow2 (- 2 - int 24 + 1))"
    unfolding rnd32_def
    by (rule round_to_eval [where k = 0])
       (simp_all add: pow2_def round_half_even_nearest)
  then show ?thesis by (simp add: pow2_def)
qed

lemma rnd64_double_299:
  "rnd64 (5386305154335113 / 18014398509481984) = Fin (5386305154335113 / 18014398509481984)"
proof -
  have q: "(5386305154335113 / 18014398509481984 :: rat) = of_int 5386305154335113 * pow2 (- 54)"
    by (simp add: pow2_def)
  show ?thesis
    unfolding rnd64_def by (rule round_to_exact [OF q]) (simp_all add: pow2_def)
qed

lemma rnd64_single_299: "rnd64 (10032775 / 33554432) = Fin (10032775 / 33554432)"
proof -
  have q: "(10032775 / 33554432 :: rat) = of_int 10032775 * pow2 (- 25)"
    by (simp add: pow2_def)
  show ?thesis
    unfolding rnd64_def by (rule round_to_exact [OF q]) (simp_all add: pow2_def)
qed

lemma nmul_literal_0:
  assumes "0 \<le> q" "q \<le> 1"
  shows "nmul ieee (dbl ieee q) (Fin 0) = Fin 0"
proof -
  obtain v where "rnd64 q = Fin v" using rnd64_between [of 0 q 1] assms by auto
  then show ?thesis by (simp add: ieee_def)
qed

lemma luminance_red_1:
  "luminance ieee [1, 0, 0, 255] 0 = Fin (5386305154335113 / 18014398509481984)"
proof -
  have u: "u8_get [1, 0, 0, 255] 0 = Fin 1" "u8_get [1, 0, 0, 255] (0 + 1) = Fin 0"
      "u8_get [1, 0, 0, 255] (0 + 2) = Fin 0"
    by (simp_all add: u8_get_def u8_read_def to_number_def num_def)
  have a: "nmul ieee (dbl ieee (299 / 1000)) (Fin 1) =
      Fin (5386305154335113 / 18014398509481984)"
    by (simp add: ieee_def literal_299 rnd64_double_299)
  have b: "nmul ieee (dbl ieee (587 / 1000)) (Fin 0) = Fin 0"
    by (rule nmul_literal_0) simp_all
  have c: "nmul ieee (dbl ieee (114 / 1000)) (Fin 0) = Fin 0"
    by (rule nmul_literal_0) simp_all
  show ?thesis
    unfolding luminance_def u a b c by (simp add: ieee_def rnd64_double_299)
qed

lemma table_red_1:
  "computeIntegralImage ieee [1, 0, 0, 255] 1 1 = [Fin (10032775 / 33554432)]"
proof -
  have l: "nadd ieee (Fin 0) (luminance ieee [1, 0, 0, 255] 0) =
      Fin (5386305154335113 / 18014398509481984)"
    unfolding luminance_red_1 by (simp add: ieee_def rnd64_double_299)
  have f: "fround ieee (Fin (5386305154335113 / 18014398509481984)) = Fin (10032775 / 33554432)"
    by (simp add: fround_def ieee_def fround_299)
  have "integralRow ieee [1, 0, 0, 255] 1 0 0 (Fin 0) [Fin 0] =
        integralRow ieee [1, 0, 0, 255] 1 0 1 (Fin (5386305154335113 / 18014398509481984))
          [Fin (10032775 / 33554432)]"
    by (subst integralRow.simps) (simp add: Let_def l f)
  also have "\<dots> = [Fin (10032775 / 33554432)]"
    by (subst integralRow.simps) simp
  finally have row: "integralRow ieee [1, 0, 0, 255] 1 0 0 (Fin 0) [Fin 0] =
      [Fin (10032775 / 33554432)]" .
  have "integralRows ieee [1, 0, 0, 255] 1 1 0 [Fin 0] =
        integralRows ieee [1, 0, 0, 255] 1 1 1 [Fin (10032775 / 33554432)]"
    by (subst integralRows.simps) (use row in simp)
  also have "\<dots> = [Fin (10032775 / 33554432)]"
    by (subst integralRows.simps) simp
  finally show ?thesis by (simp add: computeIntegralImage_def)
qed

lemma rectSum_red_1:
  "getRectSum ieee (computeIntegralImage ieee [1, 0, 0, 255] 1 1) (Fin 1) (Fin 0) (Fin 0) (Fin 1) (Fin 1) =
     Fin (10032775 / 33554432)"
  unfolding table_red_1 using rnd64_int [of 1]
  by (simp add: getRectSum_def Let_def ieee_def f32_get_def f32_at_def rnd64_single_299)

text \<open>
  C3. The claim has \<^verbatim>\<open>getRectSum\<close> on the table of \<^verbatim>\<open>computeIntegralImage\<close> equal to the
  sum of the luminance over the rectangle. On the image of one pixel \<open>(1, 0, 0)\<close> the sum
  is \<open>0.299\<close>, and the luminance the code computes is the double nearest to \<open>0.299\<close>; the
  table is a \<^verbatim>\<open>Float32Array\<close>, so what \<^verbatim>\<open>getRectSum\<close> returns is that double rounded to
  single precision, \<open>10032775 / 2 ^ 25\<close>, which is neither.
\<close>

theorem integral_sum_counterexample:
  "getRectSum ieee (computeIntegralImage ieee [1, 0, 0, 255] 1 1) (Fin 1) (Fin 0) (Fin 0) (Fin 1) (Fin 1) =
     Fin (10032775 / 33554432) \<and>
   bruteForceSum [1, 0, 0, 255] 1 0 0 1 1 = 299 / 1000 \<and>
   getRectSum ieee (computeIntegralImage ieee [1, 0, 0, 255] 1 1) (Fin 1) (Fin 0) (Fin 0) (Fin 1) (Fin 1) \<noteq>
     Fin (bruteForceSum [1, 0, 0, 255] 1 0 0 1 1) \<and>
   getRectSum ieee (computeIntegralImage ieee [1, 0, 0, 255] 1 1) (Fin 1) (Fin 0) (Fin 0) (Fin 1) (Fin 1) \<noteq>
     luminance ieee [1, 0, 0, 255] 0"
  unfolding rectSum_red_1 luminance_red_1
  by (simp add: bruteForceSum_def lumExact_def)

text \<open>
  C3, as amended. In exact arithmetic, with no rounding of the sums or of the table, and
  for a pixel array that holds the \<open>width * height\<close> pixels, \<^verbatim>\<open>getRectSum\<close> on the table
  of \<^verbatim>\<open>computeIntegralImage\<close> is the sum of the luminance over the pixels of every
  rectangle with \<open>w \<ge> 1\<close> and \<open>h \<ge> 1\<close> that lies inside the image. With the doubles and the
  \<^verbatim>\<open>Float32Array\<close> of the code the two agree up to rounding only.
\<close>

theorem rect_sum_exact_arithmetic:
  assumes data: "4 * (W * H) \<le> length data"
    and x: "x + w \<le> W" and y: "y + h \<le> H" and w: "1 \<le> w" and h: "1 \<le> h"
  shows "getRectSum exact (computeIntegralImage exact data W H)
           (Fin (of_nat W)) (Fin (of_nat x)) (Fin (of_nat y)) (Fin (of_nat w)) (Fin (of_nat h)) =
         Fin (bruteForceSum data W x y w h)"
proof -
  let ?T = "computeIntegralImage exact data W H"
  define x2 where "x2 = x + w - 1"
  define y2 where "y2 = y + h - 1"
  have x2: "x2 < W" "Suc x2 = x + w" using x w by (simp_all add: x2_def)
  have y2: "y2 < H" "Suc y2 = y + h" using y h by (simp_all add: y2_def)
  have ex2: "nsub exact (nadd exact (Fin (of_nat x)) (Fin (of_nat w))) (Fin 1) = Fin (of_nat x2)"
    using w by (simp add: x2_def of_nat_diff)
  have ey2: "nsub exact (nadd exact (Fin (of_nat y)) (Fin (of_nat h))) (Fin 1) = Fin (of_nat y2)"
    using h by (simp add: y2_def of_nat_diff)
  have idx: "nadd exact (nmul exact (Fin (of_nat j)) (Fin (of_nat W))) (Fin (of_nat i)) =
             Fin (of_nat (j * W + i))" for i j :: nat
    by simp
  have pre: "nsub exact (Fin (of_nat k)) (Fin 1) = Fin (of_nat (k - 1))" if "0 < k" for k :: nat
    using that by (simp add: of_nat_diff)
  have gt: "ngt (Fin (of_nat k)) (Fin 0) \<longleftrightarrow> 0 < k" for k :: nat
    by simp
  have D: "f32_get ?T (Fin (of_nat (y2 * W + x2))) = Fin (bruteForceSum data W 0 0 (x + w) (y + h))"
    using table_at [OF data x2(1) y2(1)] by (simp only: x2(2) y2(2))
  have B: "(if 0 < y then f32_get ?T (Fin (of_nat ((y - 1) * W + x2))) else Fin 0) =
           Fin (bruteForceSum data W 0 0 (x + w) y)"
  proof (cases "0 < y")
    case True
    then have "y - 1 < H" "Suc (y - 1) = y" using y by auto
    then show ?thesis using table_at [OF data x2(1), of "y - 1"] True x2(2) by simp
  next
    case False
    then show ?thesis by simp
  qed
  have C: "(if 0 < x then f32_get ?T (Fin (of_nat (y2 * W + (x - 1)))) else Fin 0) =
           Fin (bruteForceSum data W 0 0 x (y + h))"
  proof (cases "0 < x")
    case True
    then have "x - 1 < W" "Suc (x - 1) = x" using x by auto
    then show ?thesis using table_at [OF data _ y2(1), of "x - 1"] True y2(2) by simp
  next
    case False
    then show ?thesis by simp
  qed
  have A: "(if 0 < x \<and> 0 < y then f32_get ?T (Fin (of_nat ((y - 1) * W + (x - 1)))) else Fin 0) =
           Fin (bruteForceSum data W 0 0 x y)"
  proof (cases "0 < x \<and> 0 < y")
    case True
    then have "x - 1 < W" "Suc (x - 1) = x" "y - 1 < H" "Suc (y - 1) = y" using x y by auto
    then show ?thesis using table_at [OF data, of "x - 1" "y - 1"] True by simp
  next
    case False
    then show ?thesis by auto
  qed
  have "getRectSum exact ?T (Fin (of_nat W)) (Fin (of_nat x)) (Fin (of_nat y)) (Fin (of_nat w))
          (Fin (of_nat h)) =
        nadd exact (nsub exact (nsub exact
          (f32_get ?T (Fin (of_nat (y2 * W + x2))))
          (if 0 < y then f32_get ?T (Fin (of_nat ((y - 1) * W + x2))) else Fin 0))
          (if 0 < x then f32_get ?T (Fin (of_nat (y2 * W + (x - 1)))) else Fin 0))
          (if 0 < x \<and> 0 < y then f32_get ?T (Fin (of_nat ((y - 1) * W + (x - 1)))) else Fin 0)"
    unfolding getRectSum_def Let_def ex2 ey2 gt
    by (cases "0 < x"; cases "0 < y") (simp_all only: pre idx if_True if_False simp_thms)
  also have "\<dots> = Fin (bruteForceSum data W 0 0 (x + w) (y + h) - bruteForceSum data W 0 0 (x + w) y -
      bruteForceSum data W 0 0 x (y + h) + bruteForceSum data W 0 0 x y)"
    unfolding A B C D by simp
  finally show ?thesis by (simp only: rect_inclusion_exclusion)
qed

theorem rect_sum_exact_arithmetic_witness:
  "4 * (2 * 2) \<le> length [10, 20, 30, 255, 40, 50, 60, 255, 70, 80, 90, 255, 1, 2, 3, 255 :: int] \<and>
   getRectSum exact
     (computeIntegralImage exact
        [10, 20, 30, 255, 40, 50, 60, 255, 70, 80, 90, 255, 1, 2, 3, 255] 2 2)
     (Fin 2) (Fin 1) (Fin 0) (Fin 1) (Fin 2) =
   Fin (bruteForceSum [10, 20, 30, 255, 40, 50, 60, 255, 70, 80, 90, 255, 1, 2, 3, 255] 2 1 0 1 2) \<and>
   bruteForceSum [10, 20, 30, 255, 40, 50, 60, 255, 70, 80, 90, 255, 1, 2, 3, 255] 2 1 0 1 2 =
     9993 / 200"
  using rect_sum_exact_arithmetic [of 2 2
     "[10, 20, 30, 255, 40, 50, 60, 255, 70, 80, 90, 255, 1, 2, 3, 255]" 1 1 0 2]
  by (simp add: bruteForceSum_def lumExact_def)

end
